theory Spec2Isabelle
  imports Complex_Main
begin

section \<open>Scalars, vectors and matrices\<close>

text \<open>
  The importer (intern/cycles/render/alembic.cpp) works on \<^verbatim>\<open>double\<close> time stamps
  (\<^verbatim>\<open>Abc::chrono_t\<close>), \<^verbatim>\<open>double\<close> matrices (\<^verbatim>\<open>M44d\<close>) and \<^verbatim>\<open>float\<close> positions.
  A finite floating-point number is a rational number, and on finite numbers the
  comparisons \<^verbatim>\<open><\<close>, \<^verbatim>\<open><=\<close>, \<^verbatim>\<open>==\<close> and the unary minus of the machine agree with
  those of the rationals (minus only flips the sign bit, it never rounds). The
  embedding therefore represents a finite \<^verbatim>\<open>float\<close> or \<^verbatim>\<open>double\<close> by the rational it
  denotes; NaN and the infinities are outside the model. Every operation that rounds
  (sums, products, quotients, casts, the matrix algebra of Imath) is not computed in HOL:
  it is a field of the record \<open>numerics\<close> below and the theorems hold for every choice
  of these operations.
\<close>

type_synonym chrono_t = rat

datatype 'a vec3 = Vec3 'a 'a 'a

datatype 'a vec4 = Vec4 'a 'a 'a 'a

datatype 'a M44 = M44 "'a vec4" "'a vec4" "'a vec4" "'a vec4"

type_synonym float3 = "rat vec3"
type_synonym V3f = "rat vec3"
type_synonym V3d = "rat vec3"
type_synonym M44d = "rat M44"

text \<open>\<^verbatim>\<open>m[i]\<close> and \<^verbatim>\<open>m[i][j]\<close> for the constant indices 0..3 the source uses.\<close>

fun vec4_get :: "'a vec4 \<Rightarrow> nat \<Rightarrow> 'a" where
  "vec4_get (Vec4 a b c d) j = (if j = 0 then a else if j = 1 then b else if j = 2 then c else d)"

fun M44_row :: "'a M44 \<Rightarrow> nat \<Rightarrow> 'a vec4" where
  "M44_row (M44 r0 r1 r2 r3) i = (if i = 0 then r0 else if i = 1 then r1 else if i = 2 then r2 else r3)"

definition M44_get :: "'a M44 \<Rightarrow> nat \<Rightarrow> nat \<Rightarrow> 'a" where
  "M44_get m i j = vec4_get (M44_row m i) j"

text \<open>
  Imath's constructors: \<^verbatim>\<open>M44d()\<close> is the identity matrix, and the converting
  constructor \<^verbatim>\<open>M44d(a)\<close> of one scalar sets all sixteen entries to that scalar.
\<close>

definition M44d_identity :: M44d where
  "M44d_identity = M44 (Vec4 1 0 0 0) (Vec4 0 1 0 0) (Vec4 0 0 1 0) (Vec4 0 0 0 1)"

definition M44d_fill :: "rat \<Rightarrow> M44d" where
  "M44d_fill a = M44 (Vec4 a a a a) (Vec4 a a a a) (Vec4 a a a a) (Vec4 a a a a)"

text \<open>
  The rounding operations the importer calls: the matrix and quaternion algebra of
  Imath, named as there, the \<^verbatim>\<open>double\<close> subtraction and division of the interpolation
  factor, and the cast \<^verbatim>\<open>static_cast<float>\<close>. \<open>'q\<close> is the type of quaternions
  (\<^verbatim>\<open>Imath::Quatd\<close>). The two decompositions \<^verbatim>\<open>extractSHRT\<close> and
  \<^verbatim>\<open>extractAndRemoveScalingAndShear\<close> are called with Imath's default \<^verbatim>\<open>exc = true\<close>
  and throw \<^verbatim>\<open>Imath::ZeroScaleExc\<close> on a matrix with a zero scale: they yield \<open>None\<close>
  there. Nothing in the importer catches the exception, so every function that
  decomposes a matrix has an optional result, \<open>None\<close> when the exception leaves it.
\<close>

record 'q numerics =
  extractSHRT :: "M44d \<Rightarrow> (V3d \<times> V3d \<times> V3d \<times> V3d) option"
  extractAndRemoveScalingAndShear :: "M44d \<Rightarrow> (M44d \<times> V3d \<times> V3d) option"
  extractQuat :: "M44d \<Rightarrow> 'q"
  setEulerAngles :: "V3d \<Rightarrow> M44d"
  setScale :: "V3d \<Rightarrow> M44d"
  setShear :: "V3d \<Rightarrow> M44d"
  setTranslation :: "V3d \<Rightarrow> M44d"
  toMatrix44 :: "'q \<Rightarrow> M44d"
  mat_mul :: "M44d \<Rightarrow> M44d \<Rightarrow> M44d"
  lerp :: "V3d \<Rightarrow> V3d \<Rightarrow> chrono_t \<Rightarrow> V3d"
  slerp :: "'q \<Rightarrow> 'q \<Rightarrow> chrono_t \<Rightarrow> 'q"
  quat_dot :: "'q \<Rightarrow> 'q \<Rightarrow> rat"
  quat_neg :: "'q \<Rightarrow> 'q"
  double_sub :: "chrono_t \<Rightarrow> chrono_t \<Rightarrow> chrono_t"
  double_div :: "chrono_t \<Rightarrow> chrono_t \<Rightarrow> chrono_t"
  double_to_float :: "rat \<Rightarrow> rat"

section \<open>Up-axis conversion\<close>

text \<open>\<^verbatim>\<open>make_float3_from_yup\<close>: \<^verbatim>\<open>make_float3(v.x, -v.z, v.y)\<close>.\<close>

fun make_float3_from_yup :: "V3f \<Rightarrow> float3" where
  "make_float3_from_yup (Vec3 x y z) = Vec3 x (- z) y"

text \<open>
  The inverse remap the specification speaks of, \<open>(x, y, z) \<mapsto> (x, z, -y)\<close>. It is
  not a function of the source; it is written from the specification's words to state
  the round trip.
\<close>

fun make_yup_from_float3 :: "float3 \<Rightarrow> V3f" where
  "make_yup_from_float3 (Vec3 x y z) = Vec3 x z (- y)"

text \<open>The two remaps \<^verbatim>\<open>convert_yup_zup\<close> applies to the decomposed components.\<close>

fun yup_remap :: "V3d \<Rightarrow> V3d" where
  "yup_remap (Vec3 x y z) = Vec3 x (- z) y"

fun yup_scale_remap :: "V3d \<Rightarrow> V3d" where
  "yup_scale_remap (Vec3 x y z) = Vec3 x z y"

text \<open>
  \<^verbatim>\<open>convert_yup_zup\<close>: \<^verbatim>\<open>extractSHRT\<close> yields scale, shear, rotation (Euler angles)
  and translation; the result is \<^verbatim>\<open>scale_mat * rot_mat * trans_mat\<close>, the shear is
  dropped.
\<close>

definition convert_yup_zup :: "'q numerics \<Rightarrow> M44d \<Rightarrow> M44d option" where
  "convert_yup_zup ops mtx =
     (case extractSHRT ops mtx of
        None \<Rightarrow> None
      | Some (Vec3 sx sy sz, shear, Vec3 rx ry rz, Vec3 tx ty tz) \<Rightarrow>
          let rot_mat = setEulerAngles ops (Vec3 rx (- rz) ry);
              scale_mat = setScale ops (Vec3 sx sz sy);
              trans_mat = setTranslation ops (Vec3 tx (- tz) ty)
          in Some (mat_mul ops (mat_mul ops scale_mat rot_mat) trans_mat))"

section \<open>Decomposition and composition of transforms\<close>

definition transform_decompose :: "'q numerics \<Rightarrow> M44d \<Rightarrow> (V3d \<times> V3d \<times> 'q \<times> V3d) option" where
  "transform_decompose ops mat =
     (case extractAndRemoveScalingAndShear ops mat of
        None \<Rightarrow> None
      | Some (mat_remainder, scale, shear) \<Rightarrow>
          let translation = Vec3 (M44_get mat_remainder 3 0) (M44_get mat_remainder 3 1)
                                 (M44_get mat_remainder 3 2);
              rotation = extractQuat ops mat_remainder
          in Some (scale, shear, rotation, translation))"

definition transform_compose :: "'q numerics \<Rightarrow> V3d \<Rightarrow> V3d \<Rightarrow> 'q \<Rightarrow> V3d \<Rightarrow> M44d" where
  "transform_compose ops scale shear rotation translation =
     (let scale_mat = setScale ops scale;
          shear_mat = setShear ops shear;
          rot_mat = toMatrix44 ops rotation;
          trans_mat = setTranslation ops translation
      in mat_mul ops (mat_mul ops (mat_mul ops scale_mat shear_mat) rot_mat) trans_mat)"

section \<open>Sample maps\<close>

text \<open>
  \<^verbatim>\<open>MatrixSampleMap\<close> is \<^verbatim>\<open>std::map<chrono_t, M44d>\<close>: an association list whose keys
  are strictly increasing (\<open>map_inv\<close>). \<^verbatim>\<open>find\<close> is \<open>map_of\<close>, \<^verbatim>\<open>begin()\<close> is the head
  and \<^verbatim>\<open>rbegin()\<close> the last element, iteration is in list order, and
  \<^verbatim>\<open>m[k] = v\<close> is \<open>map_assign\<close>. \<^verbatim>\<open>std::set<chrono_t>\<close> is a strictly increasing list
  with \<open>set_insert\<close>.
\<close>

type_synonym 'v sample_map = "(chrono_t \<times> 'v) list"
type_synonym MatrixSampleMap = "M44d sample_map"

definition map_inv :: "('k::linorder \<times> 'v) list \<Rightarrow> bool" where
  "map_inv xs = sorted_wrt (<) (map fst xs)"

definition keys :: "('k \<times> 'v) list \<Rightarrow> 'k set" where
  "keys xs = fst ` set xs"

fun map_assign :: "'k::linorder \<Rightarrow> 'v \<Rightarrow> ('k \<times> 'v) list \<Rightarrow> ('k \<times> 'v) list" where
  "map_assign k v [] = [(k, v)]"
| "map_assign k v ((k', v') # xs) =
     (if k < k' then (k, v) # (k', v') # xs
      else if k = k' then (k, v) # xs
      else (k', v') # map_assign k v xs)"

fun set_insert :: "'k::linorder \<Rightarrow> 'k list \<Rightarrow> 'k list" where
  "set_insert k [] = [k]"
| "set_insert k (k' # xs) =
     (if k < k' then k # k' # xs
      else if k = k' then k' # xs
      else k' # set_insert k xs)"

section \<open>Matrix lookup and interpolation\<close>

definition get_matrix_for_time :: "MatrixSampleMap \<Rightarrow> chrono_t \<Rightarrow> M44d" where
  "get_matrix_for_time samples time =
     (case map_of samples time of Some m \<Rightarrow> m | None \<Rightarrow> M44d_identity)"

text \<open>
  The loop of \<^verbatim>\<open>get_interpolated_matrix_for_time\<close> that looks for the previous and the
  next sample time, over the entries in key order; the pair is
  \<open>(prev_time, next_time)\<close>.
\<close>

fun find_prev_next :: "'v sample_map \<Rightarrow> chrono_t \<Rightarrow> chrono_t \<times> chrono_t \<Rightarrow> chrono_t \<times> chrono_t" where
  "find_prev_next [] time (prev_time, next_time) = (prev_time, next_time)"
| "find_prev_next ((current_time, m) # rest) time (prev_time, next_time) =
     find_prev_next rest time
       (if current_time > prev_time \<and> current_time \<le> time then current_time else prev_time,
        if current_time > next_time \<and> current_time \<ge> time then current_time else next_time)"

text \<open>
  The blend of two matrices at factor \<open>t\<close>, the tail of the function; \<open>None\<close> when
  one of the two decompositions throws.
\<close>

definition interpolate_matrices :: "'q numerics \<Rightarrow> M44d \<Rightarrow> M44d \<Rightarrow> chrono_t \<Rightarrow> M44d option" where
  "interpolate_matrices ops prev_mat next_mat t =
     (case transform_decompose ops prev_mat of
        None \<Rightarrow> None
      | Some (prev_scale, prev_shear, prev_rotation, prev_translation) \<Rightarrow>
     (case transform_decompose ops next_mat of
        None \<Rightarrow> None
      | Some (next_scale, next_shear, next_rotation0, next_translation) \<Rightarrow>
          let next_rotation =
                (if quat_dot ops prev_rotation next_rotation0 < 0
                 then quat_neg ops next_rotation0 else next_rotation0)
          in Some (transform_compose ops
               (lerp ops prev_scale next_scale t)
               (lerp ops prev_shear next_shear t)
               (slerp ops prev_rotation next_rotation t)
               (lerp ops prev_translation next_translation t))))"

definition get_interpolated_matrix_for_time :: "'q numerics \<Rightarrow> MatrixSampleMap \<Rightarrow> chrono_t \<Rightarrow> M44d option" where
  "get_interpolated_matrix_for_time ops samples time =
     (if samples = [] then Some M44d_identity
      else case map_of samples time of
        Some m \<Rightarrow> Some m
      | None \<Rightarrow>
          if length samples = 1 then Some (snd (hd samples))
          else if time \<le> fst (hd samples) then Some (snd (hd samples))
          else if time \<ge> fst (last samples) then Some (snd (last samples))
          else
            (case find_prev_next samples time (fst (hd samples), fst (last samples)) of
               (prev_time, next_time) \<Rightarrow>
                 let prev_mat = get_matrix_for_time samples prev_time;
                     next_mat = get_matrix_for_time samples next_time;
                     t = double_div ops (double_sub ops time prev_time)
                                        (double_sub ops next_time prev_time)
                 in interpolate_matrices ops prev_mat next_mat t))"

section \<open>Concatenation of transform samples\<close>

text \<open>
  The loop of \<^verbatim>\<open>concatenate_xform_samples\<close> over the union of the sample times, in
  increasing order; an exception of one of the two interpolations ends it.
\<close>

fun concatenate_loop ::
  "'q numerics \<Rightarrow> MatrixSampleMap \<Rightarrow> MatrixSampleMap \<Rightarrow> chrono_t list \<Rightarrow> MatrixSampleMap \<Rightarrow> MatrixSampleMap option" where
  "concatenate_loop ops parent_samples local_samples [] output_samples = Some output_samples"
| "concatenate_loop ops parent_samples local_samples (time # rest) output_samples =
     (case get_interpolated_matrix_for_time ops parent_samples time of
        None \<Rightarrow> None
      | Some parent_matrix \<Rightarrow>
          (case get_interpolated_matrix_for_time ops local_samples time of
             None \<Rightarrow> None
           | Some local_matrix \<Rightarrow>
               concatenate_loop ops parent_samples local_samples rest
                 (map_assign time (mat_mul ops local_matrix parent_matrix) output_samples)))"

definition concatenate_xform_samples ::
  "'q numerics \<Rightarrow> MatrixSampleMap \<Rightarrow> MatrixSampleMap \<Rightarrow> MatrixSampleMap \<Rightarrow> MatrixSampleMap option" where
  "concatenate_xform_samples ops parent_samples local_samples output_samples =
     (let union_of_samples =
            fold set_insert (map fst local_samples)
              (fold set_insert (map fst parent_samples) [])
      in concatenate_loop ops parent_samples local_samples union_of_samples output_samples)"

section \<open>Machine integers and arrays\<close>

text \<open>
  \<^verbatim>\<open>int\<close> is a 32-bit signed integer. A signed overflow and a read outside an array are
  undefined behaviour in C++; the functions below return \<open>None\<close> where the source
  would run into one of them, throws, or violates the assertion of
  \<^verbatim>\<open>push_back_reserved\<close>, so that \<open>Some\<close> means: the source computes this result.
\<close>

definition int_ok :: "int \<Rightarrow> bool" where
  "int_ok k = (- (2 ^ 31) \<le> k \<and> k < 2 ^ 31)"

definition array_get :: "'a list \<Rightarrow> int \<Rightarrow> 'a option" where
  "array_get xs k = (if 0 \<le> k \<and> k < int (length xs) \<and> int_ok k then Some (xs ! nat k) else None)"

type_synonym int3 = "int \<times> int \<times> int"

text \<open>
  The class \<^verbatim>\<open>array\<close> (util/util_array.h) is not among the sources. Its \<^verbatim>\<open>reserve(n)\<close>
  allocates \<^verbatim>\<open>sizeof(T) * n\<close> bytes and throws \<^verbatim>\<open>std::bad_alloc\<close> when it gets none: a
  request whose byte count does not fit \<^verbatim>\<open>size_t\<close> (64 bits) cannot be served, and the
  model lets exactly these requests fail; running out of memory on a request that fits
  is not modelled. \<^verbatim>\<open>push_back_reserved\<close> asserts that the array is below its reserved
  capacity. An \<^verbatim>\<open>int3\<close> takes 16 bytes.
\<close>

definition reserve_ok :: "nat \<Rightarrow> nat \<Rightarrow> bool" where
  "reserve_ok element_size n = (element_size * n < 2 ^ 64)"

section \<open>Time-sampled data\<close>

text \<open>
  Modelled from the spec: the class \<^verbatim>\<open>DataStore\<close> (render/alembic.h) is not among the
  sources. The specification (3, 4.1) describes it as an ordered mapping from time to a
  value with strictly increasing keys, where \<^verbatim>\<open>add_data(value, time)\<close> appends or
  overwrites the sample at \<open>time\<close>, and which is emptied when the cache is cleared.
  The time-sampling descriptor a store carries beside its entries is left out: the
  importer only copies it.
\<close>

type_synonym 'a DataStore = "(chrono_t \<times> 'a) list"

definition add_data :: "'a \<Rightarrow> chrono_t \<Rightarrow> 'a DataStore \<Rightarrow> 'a DataStore" where
  "add_data val time store = map_assign time val store"

text \<open>
  The renderer's \<^verbatim>\<open>Transform\<close> has three rows \<^verbatim>\<open>x, y, z\<close> of four floats.
  Modelled from the spec: \<^verbatim>\<open>transform_identity()\<close> (util/util_transform.h, not among
  the sources) is the identity transform.
\<close>

datatype Transform = Transform "rat vec4" "rat vec4" "rat vec4"

definition transform_identity :: Transform where
  "transform_identity = Transform (Vec4 1 0 0 0) (Vec4 0 1 0 0) (Vec4 0 0 1 0)"

text \<open>\<^verbatim>\<open>make_transform\<close>: \<^verbatim>\<open>trans[j][i] = static_cast<float>(m[i][j])\<close> for \<open>j < 3\<close>, \<open>i < 4\<close>.\<close>

definition make_transform :: "'q numerics \<Rightarrow> M44d \<Rightarrow> Transform option" where
  "make_transform ops a =
     (case convert_yup_zup ops a of
        None \<Rightarrow> None
      | Some m \<Rightarrow>
          let row = (\<lambda>j. Vec4 (double_to_float ops (M44_get m 0 j)) (double_to_float ops (M44_get m 1 j))
                             (double_to_float ops (M44_get m 2 j)) (double_to_float ops (M44_get m 3 j)))
          in Some (Transform (row 0) (row 1) (row 2)))"

text \<open>
  A cached attribute: its name and its time-sampled raw buffers (the bytes of an
  \<^verbatim>\<open>array<char>\<close>). The tags \<^verbatim>\<open>std\<close>, \<^verbatim>\<open>element\<close> and \<^verbatim>\<open>type_desc\<close> are left out.
\<close>

type_synonym bytes = "nat list"

record CachedAttribute =
  attr_name :: string
  attr_data :: "bytes DataStore"

record CachedData =
  vertices :: "float3 list DataStore"
  triangles :: "int3 list DataStore"
  triangles_loops :: "int3 list DataStore"
  transforms :: "Transform DataStore"
  curve_keys :: "float3 list DataStore"
  curve_radius :: "rat list DataStore"
  curve_first_key :: "int list DataStore"
  curve_shader :: "int list DataStore"
  attributes :: "CachedAttribute list"

text \<open>Modelled from the spec: \<^verbatim>\<open>CachedData::clear\<close> (render/alembic.h) empties every channel.\<close>

definition cached_data_clear :: CachedData where
  "cached_data_clear =
     \<lparr>vertices = [], triangles = [], triangles_loops = [], transforms = [],
      curve_keys = [], curve_radius = [], curve_first_key = [], curve_shader = [],
      attributes = []\<rparr>"

text \<open>
  Modelled from the spec: \<^verbatim>\<open>CachedData::add_attribute\<close> (render/alembic.h) returns the
  attribute of that name, created empty on the first reference to the name.
\<close>

definition add_attribute :: "string \<Rightarrow> CachedAttribute list \<Rightarrow> CachedAttribute list" where
  "add_attribute name attrs =
     (if list_ex (\<lambda>a. attr_name a = name) attrs then attrs
      else attrs @ [\<lparr>attr_name = name, attr_data = []\<rparr>])"

text \<open>The part of an \<^verbatim>\<open>AlembicObject\<close> the loading routines read and write.\<close>

record AlembicObject =
  xform_samples :: MatrixSampleMap
  cached_data :: CachedData
  data_loaded :: bool

section \<open>Mesh samples\<close>

text \<open>\<^verbatim>\<open>add_positions\<close>; a null sample pointer is \<open>None\<close>.\<close>

definition add_positions :: "V3f list option \<Rightarrow> chrono_t \<Rightarrow> CachedData \<Rightarrow> CachedData" where
  "add_positions positions time cd =
     (case positions of
        None \<Rightarrow> cd
      | Some ps \<Rightarrow> cd\<lparr>vertices := add_data (map make_float3_from_yup ps) time (vertices cd)\<rparr>)"

text \<open>
  The inner loop of \<^verbatim>\<open>add_triangles\<close>, \<^verbatim>\<open>for (int j = 0; j < face_counts_array[i] - 2; j++)\<close>,
  over the values of \<open>j\<close> still to come; the pair holds the arrays \<^verbatim>\<open>triangles\<close> and
  \<^verbatim>\<open>triangles_loops\<close>.
\<close>

fun add_triangles_fan :: "int list \<Rightarrow> int \<Rightarrow> nat list \<Rightarrow> int3 list \<times> int3 list \<Rightarrow> (int3 list \<times> int3 list) option" where
  "add_triangles_fan face_indices index_offset [] acc = Some acc"
| "add_triangles_fan face_indices index_offset (j # js) (tris, loops) =
     (case (array_get face_indices index_offset,
            array_get face_indices (index_offset + int j + 1),
            array_get face_indices (index_offset + int j + 2)) of
        (Some v0, Some v1, Some v2) \<Rightarrow>
          add_triangles_fan face_indices index_offset js
            (tris @ [(v0, v1, v2)],
             loops @ [(index_offset, index_offset + int j + 1, index_offset + int j + 2)])
      | _ \<Rightarrow> None)"

text \<open>The outer loop over the faces, with the running \<^verbatim>\<open>index_offset\<close>.\<close>

fun add_triangles_faces :: "int list \<Rightarrow> int list \<Rightarrow> int \<Rightarrow> int3 list \<times> int3 list \<Rightarrow> (int3 list \<times> int3 list) option" where
  "add_triangles_faces [] face_indices index_offset acc = Some acc"
| "add_triangles_faces (n # face_counts) face_indices index_offset acc =
     (case add_triangles_fan face_indices index_offset [0..<nat (n - 2)] acc of
        None \<Rightarrow> None
      | Some acc' \<Rightarrow>
          if int_ok (index_offset + n)
          then add_triangles_faces face_counts face_indices (index_offset + n) acc'
          else None)"

text \<open>
  The first loop of \<^verbatim>\<open>add_triangles\<close>: \<^verbatim>\<open>num_triangles += face_counts_array[i] - 2\<close>, an
  \<^verbatim>\<open>int\<close> added to a \<^verbatim>\<open>size_t\<close>, which wraps around modulo \<open>2^64\<close>.
\<close>

fun count_triangles :: "int list \<Rightarrow> nat \<Rightarrow> nat option" where
  "count_triangles [] num_triangles = Some num_triangles"
| "count_triangles (n # face_counts) num_triangles =
     (if int_ok (n - 2)
      then count_triangles face_counts (nat ((int num_triangles + (n - 2)) mod 2 ^ 64))
      else None)"

definition add_triangles :: "int list option \<Rightarrow> int list option \<Rightarrow> chrono_t \<Rightarrow> CachedData \<Rightarrow> CachedData option" where
  "add_triangles face_counts face_indices time cd =
     (case (face_counts, face_indices) of
        (Some counts, Some indices) \<Rightarrow>
          (case count_triangles counts 0 of
             None \<Rightarrow> None
           | Some num_triangles \<Rightarrow>
               if \<not> reserve_ok 16 num_triangles then None
               else
                 (case add_triangles_faces counts indices 0 ([], []) of
                    None \<Rightarrow> None
                  | Some (tris, loops) \<Rightarrow>
                      if length tris \<le> num_triangles
                      then Some (cd\<lparr>triangles := add_data tris time (triangles cd),
                                    triangles_loops := add_data loops time (triangles_loops cd)\<rparr>)
                      else None))
      | _ \<Rightarrow> Some cd)"

text \<open>
  The specification's words for the fan: the face list cut into polygons, each with
  its own vertex list, and triangle \<open>k\<close> of a polygon made of its first vertex, vertex
  \<open>k + 1\<close> and vertex \<open>k + 2\<close>; the loop indices of a polygon whose first corner has the
  flattened index \<open>first_loop\<close>.
\<close>

fun polygons :: "int list \<Rightarrow> 'a list \<Rightarrow> 'a list list" where
  "polygons [] face_indices = []"
| "polygons (n # face_counts) face_indices =
     take (nat n) face_indices # polygons face_counts (drop (nat n) face_indices)"

definition polygon_fan :: "'a list \<Rightarrow> ('a \<times> 'a \<times> 'a) list" where
  "polygon_fan vs = map (\<lambda>k. (vs ! 0, vs ! (k + 1), vs ! (k + 2))) [0..<length vs - 2]"

fun fan_loops :: "int \<Rightarrow> int list \<Rightarrow> int3 list" where
  "fan_loops first_loop [] = []"
| "fan_loops first_loop (n # face_counts) =
     map (\<lambda>k. (first_loop, first_loop + int k + 1, first_loop + int k + 2)) [0..<nat (n - 2)]
       @ fan_loops (first_loop + n) face_counts"

text \<open>
  A triangle and its loop-index triple agree: the three loop indices lie inside the
  face-index array, and the corners of the triangle are the entries of the array at
  these indices.
\<close>

definition corner_ok :: "int list \<Rightarrow> int3 \<Rightarrow> int3 \<Rightarrow> bool" where
  "corner_ok face_indices tri loop =
     (case loop of (a, b, c) \<Rightarrow>
        0 \<le> a \<and> a < int (length face_indices) \<and>
        0 \<le> b \<and> b < int (length face_indices) \<and>
        0 \<le> c \<and> c < int (length face_indices) \<and>
        tri = (face_indices ! nat a, face_indices ! nat b, face_indices ! nat c))"

section \<open>Curve samples\<close>

text \<open>The placeholder radius \<^verbatim>\<open>0.01f\<close>: the \<^verbatim>\<open>float\<close> nearest to 1/100.\<close>

definition curve_radius_placeholder :: rat where
  "curve_radius_placeholder = 5368709 / 536870912"

text \<open>
  The four arrays one curve sample fills: \<^verbatim>\<open>curve_keys\<close>, \<^verbatim>\<open>curve_radius\<close>,
  \<^verbatim>\<open>curve_first_key\<close>, \<^verbatim>\<open>curve_shader\<close>.
\<close>

type_synonym curve_arrays = "float3 list \<times> rat list \<times> int list \<times> int list"

text \<open>The inner loop \<^verbatim>\<open>for (int j = 0; j < num_vertices; j++)\<close>.\<close>

fun curve_keys_loop :: "V3f list \<Rightarrow> int \<Rightarrow> nat list \<Rightarrow> float3 list \<times> rat list \<Rightarrow> (float3 list \<times> rat list) option" where
  "curve_keys_loop position offset [] acc = Some acc"
| "curve_keys_loop position offset (j # js) (ckeys, cradius) =
     (case array_get position (offset + int j) of
        None \<Rightarrow> None
      | Some f \<Rightarrow>
          curve_keys_loop position offset js
            (ckeys @ [make_float3_from_yup f], cradius @ [curve_radius_placeholder]))"

text \<open>The loop over the curves, with the running \<^verbatim>\<open>offset\<close>.\<close>

fun curves_loop :: "int list \<Rightarrow> V3f list \<Rightarrow> int \<Rightarrow> curve_arrays \<Rightarrow> curve_arrays option" where
  "curves_loop [] position offset acc = Some acc"
| "curves_loop (num_vertices # rest) position offset (ckeys, cradius, cfirst_key, cshader) =
     (case curve_keys_loop position offset [0..<nat num_vertices] (ckeys, cradius) of
        None \<Rightarrow> None
      | Some (ckeys', cradius') \<Rightarrow>
          if int_ok (offset + num_vertices)
          then curves_loop rest position (offset + num_vertices)
                 (ckeys', cradius', cfirst_key @ [offset], cshader @ [0])
          else None)"

text \<open>
  The specification's words for the first-key offsets: the running offset, which
  starts at \<open>offset\<close> and grows by the vertex count of each curve.
\<close>

fun running_offsets :: "int \<Rightarrow> int list \<Rightarrow> int list" where
  "running_offsets offset [] = []"
| "running_offsets offset (n # counts) = offset # running_offsets (offset + n) counts"

text \<open>One sample of a curves schema: its time, the vertex counts and the positions.\<close>

record curves_sample =
  cs_time :: chrono_t
  cs_num_vertices :: "int list"
  cs_positions :: "V3f list"

text \<open>
  The body of the sample loop of \<^verbatim>\<open>load_all_data(ICurvesSchema)\<close>. The key and radius
  arrays are reserved for as many entries as there are positions, the other two for as
  many as there are curves, which is what they get.
\<close>

definition load_curves_sample :: "curves_sample \<Rightarrow> CachedData \<Rightarrow> CachedData option" where
  "load_curves_sample sample cd =
     (case curves_loop (cs_num_vertices sample) (cs_positions sample) 0 ([], [], [], []) of
        None \<Rightarrow> None
      | Some (ckeys, cradius, cfirst_key, cshader) \<Rightarrow>
          if length (cs_positions sample) < length ckeys then None
          else
          Some (cd\<lparr>curve_keys := add_data ckeys (cs_time sample) (curve_keys cd),
                   curve_radius := add_data cradius (cs_time sample) (curve_radius cd),
                   curve_first_key := add_data cfirst_key (cs_time sample) (curve_first_key cd),
                   curve_shader := add_data cshader (cs_time sample) (curve_shader cd)\<rparr>))"

section \<open>Transform finalization\<close>

text \<open>
  The loop of \<^verbatim>\<open>setup_transform_cache\<close> that keeps every sample under its own time; an
  exception of a conversion ends it.
\<close>

fun add_transforms :: "'q numerics \<Rightarrow> MatrixSampleMap \<Rightarrow> Transform DataStore \<Rightarrow> Transform DataStore option" where
  "add_transforms ops [] store = Some store"
| "add_transforms ops (pair # rest) store =
     (case make_transform ops (snd pair) of
        None \<Rightarrow> None
      | Some tfm \<Rightarrow> add_transforms ops rest (add_data tfm (fst pair) store))"

text \<open>
  \<^verbatim>\<open>AlembicObject::setup_transform_cache\<close>. The source initialises \<^verbatim>\<open>first_matrix\<close> with
  \<^verbatim>\<open>xform_samples.begin()->first\<close>, the key of the first entry, through the converting
  constructor of \<^verbatim>\<open>M44d\<close>. The loop with \<^verbatim>\<open>break\<close> that sets \<^verbatim>\<open>has_animation\<close> is
  \<open>list_ex\<close>.
\<close>

definition setup_transform_cache :: "'q numerics \<Rightarrow> AlembicObject \<Rightarrow> AlembicObject option" where
  "setup_transform_cache ops obj =
     (let cd = cached_data obj; samples = xform_samples obj
      in if length samples = 0
         then Some (obj\<lparr>cached_data := cd\<lparr>transforms := add_data transform_identity 0 (transforms cd)\<rparr>\<rparr>)
         else
           let first_matrix = M44d_fill (fst (hd samples));
               has_animation = list_ex (\<lambda>pair. snd pair \<noteq> first_matrix) samples
           in if \<not> has_animation
              then (case make_transform ops first_matrix of
                      None \<Rightarrow> None
                    | Some tfm \<Rightarrow>
                        Some (obj\<lparr>cached_data := cd\<lparr>transforms := add_data tfm 0 (transforms cd)\<rparr>\<rparr>))
              else (case add_transforms ops samples (transforms cd) of
                      None \<Rightarrow> None
                    | Some store \<Rightarrow> Some (obj\<lparr>cached_data := cd\<lparr>transforms := store\<rparr>\<rparr>)))"

section \<open>Loading all samples\<close>

text \<open>
  \<^verbatim>\<open>progress.get_cancel()\<close> reads a flag that another thread may set at any moment. A
  run of a routine is modelled against an oracle \<open>cancel\<close>: \<open>cancel i\<close> is what the
  \<open>i\<close>-th poll of the run (counted from 0) returns. In a sample loop the poll of
  iteration \<open>i\<close> is poll \<open>i\<close>. The loops return the cache together with a flag that
  says whether they returned early.
\<close>

fun load_curves_loop :: "(nat \<Rightarrow> bool) \<Rightarrow> nat \<Rightarrow> curves_sample list \<Rightarrow> CachedData \<Rightarrow> (bool \<times> CachedData) option" where
  "load_curves_loop cancel i [] cd = Some (False, cd)"
| "load_curves_loop cancel i (sample # rest) cd =
     (if cancel i then Some (True, cd)
      else case load_curves_sample sample cd of
             None \<Rightarrow> None
           | Some cd' \<Rightarrow> load_curves_loop cancel (Suc i) rest cd')"

text \<open>\<^verbatim>\<open>AlembicObject::load_all_data(ICurvesSchema)\<close>; the schema is the list of its samples.\<close>

definition load_all_data_curves :: "'q numerics \<Rightarrow> (nat \<Rightarrow> bool) \<Rightarrow> curves_sample list \<Rightarrow> AlembicObject \<Rightarrow> AlembicObject option" where
  "load_all_data_curves ops cancel schema obj =
     (case load_curves_loop cancel 0 schema cached_data_clear of
        None \<Rightarrow> None
      | Some (True, cd) \<Rightarrow> Some (obj\<lparr>cached_data := cd\<rparr>)
      | Some (False, cd) \<Rightarrow>
          (case setup_transform_cache ops (obj\<lparr>cached_data := cd\<rparr>) of
             None \<Rightarrow> None
           | Some obj' \<Rightarrow> Some (obj'\<lparr>data_loaded := True\<rparr>)))"

text \<open>One sample of a mesh schema; a null array pointer is \<open>None\<close>.\<close>

record mesh_sample =
  ms_time :: chrono_t
  ms_positions :: "V3f list option"
  ms_face_counts :: "int list option"
  ms_face_indices :: "int list option"

text \<open>
  A property of \<^verbatim>\<open>getArbGeomParams()\<close>: its name and a reader. In \<^verbatim>\<open>read_attribute\<close> the
  type and scope of the property and the lookups \<^verbatim>\<open>data_for_time\<close> in the cache
  (render/alembic.h, not among the sources) decide whether a buffer is built for the
  requested sample index, and from what; the reader stands for that decision: it
  yields the buffer and its time, or nothing where the source skips the property.
\<close>

type_synonym geom_param = "string \<times> (nat \<Rightarrow> CachedData \<Rightarrow> (bytes \<times> chrono_t) option)"

text \<open>\<^verbatim>\<open>attribute.data.add_data(data, time)\<close> on the attribute \<^verbatim>\<open>add_attribute\<close> returned.\<close>

fun attribute_add_data :: "string \<Rightarrow> bytes \<Rightarrow> chrono_t \<Rightarrow> CachedAttribute list \<Rightarrow> CachedAttribute list" where
  "attribute_add_data name d time [] = []"
| "attribute_add_data name d time (a # attrs) =
     (if attr_name a = name then a\<lparr>attr_data := add_data d time (attr_data a)\<rparr> # attrs
      else a # attribute_add_data name d time attrs)"

text \<open>The body of the loop of \<^verbatim>\<open>read_attribute\<close> over the properties, for one property.\<close>

definition read_prop :: "nat \<Rightarrow> string \<Rightarrow> geom_param \<Rightarrow> CachedData \<Rightarrow> CachedData" where
  "read_prop index name prop c =
     (if fst prop \<noteq> name then c
      else case snd prop index c of
             None \<Rightarrow> c
           | Some (d, time) \<Rightarrow> c\<lparr>attributes := attribute_add_data name d time (attributes c)\<rparr>)"

definition read_attribute :: "geom_param list \<Rightarrow> nat \<Rightarrow> string \<Rightarrow> CachedData \<Rightarrow> CachedData" where
  "read_attribute arb_geom_params index name cd =
     fold (read_prop index name) arb_geom_params
       (cd\<lparr>attributes := add_attribute name (attributes cd)\<rparr>)"

record PolyMeshSchema =
  pm_samples :: "mesh_sample list"
  pm_arb_geom_params :: "geom_param list"
  pm_default_uvs :: "(CachedData \<Rightarrow> CachedData) option"

text \<open>The body of the sample loop of \<^verbatim>\<open>load_all_data(IPolyMeshSchema)\<close>.\<close>

definition load_mesh_sample :: "string list \<Rightarrow> geom_param list \<Rightarrow> nat \<Rightarrow> mesh_sample \<Rightarrow> CachedData \<Rightarrow> CachedData option" where
  "load_mesh_sample requested_attributes arb_geom_params i sample cd =
     (case add_triangles (ms_face_counts sample) (ms_face_indices sample) (ms_time sample)
             (add_positions (ms_positions sample) (ms_time sample) cd) of
        None \<Rightarrow> None
      | Some cd' \<Rightarrow> Some (fold (read_attribute arb_geom_params i) requested_attributes cd'))"

fun load_mesh_loop :: "(nat \<Rightarrow> bool) \<Rightarrow> string list \<Rightarrow> geom_param list \<Rightarrow> nat \<Rightarrow> mesh_sample list \<Rightarrow> CachedData \<Rightarrow> (bool \<times> CachedData) option" where
  "load_mesh_loop cancel requested_attributes arb_geom_params i [] cd = Some (False, cd)"
| "load_mesh_loop cancel requested_attributes arb_geom_params i (sample # rest) cd =
     (if cancel i then Some (True, cd)
      else case load_mesh_sample requested_attributes arb_geom_params i sample cd of
             None \<Rightarrow> None
           | Some cd' \<Rightarrow> load_mesh_loop cancel requested_attributes arb_geom_params (Suc i) rest cd')"

text \<open>
  \<^verbatim>\<open>AlembicObject::load_all_data(IPolyMeshSchema)\<close>. \<open>requested_attributes\<close> are the names
  \<^verbatim>\<open>get_requested_attributes()\<close> returns. After the loop the flag is polled three more
  times; \<^verbatim>\<open>read_default_uvs\<close> reads the cache through \<^verbatim>\<open>data_for_time\<close> and is the
  field \<open>pm_default_uvs\<close> of the schema (\<open>None\<close> when \<^verbatim>\<open>uvs.valid()\<close> is false).
\<close>

definition load_all_data_mesh :: "'q numerics \<Rightarrow> (nat \<Rightarrow> bool) \<Rightarrow> string list \<Rightarrow> PolyMeshSchema \<Rightarrow> AlembicObject \<Rightarrow> AlembicObject option" where
  "load_all_data_mesh ops cancel requested_attributes schema obj =
     (case load_mesh_loop cancel requested_attributes (pm_arb_geom_params schema) 0
             (pm_samples schema) cached_data_clear of
        None \<Rightarrow> None
      | Some (True, cd) \<Rightarrow> Some (obj\<lparr>cached_data := cd\<rparr>)
      | Some (False, cd) \<Rightarrow>
          let n = length (pm_samples schema)
          in if cancel n then Some (obj\<lparr>cached_data := cd\<rparr>)
             else
               let cd' = (case pm_default_uvs schema of None \<Rightarrow> cd | Some read_default_uvs \<Rightarrow> read_default_uvs cd)
               in if cancel (n + 1) then Some (obj\<lparr>cached_data := cd'\<rparr>)
                  else if cancel (n + 2) then Some (obj\<lparr>cached_data := cd'\<rparr>)
                  else (case setup_transform_cache ops (obj\<lparr>cached_data := cd'\<rparr>) of
                          None \<Rightarrow> None
                        | Some obj' \<Rightarrow> Some (obj'\<lparr>data_loaded := True\<rparr>)))"

text \<open>The number of time-keyed entries of every channel of a cache.\<close>

definition channel_sizes :: "CachedData \<Rightarrow> nat list" where
  "channel_sizes cd =
     [length (vertices cd), length (triangles cd), length (triangles_loops cd),
      length (transforms cd), length (curve_keys cd), length (curve_radius cd),
      length (curve_first_key cd), length (curve_shader cd)]
     @ map (\<lambda>a. length (attr_data a)) (attributes cd)"

section \<open>The procedural driver\<close>

text \<open>
  The state of an \<^verbatim>\<open>AlembicProcedural\<close>: its sockets, the archive handle (\<open>None\<close> is a
  handle that is not valid), the flag \<^verbatim>\<open>objects_loaded\<close>, whether a socket is marked
  modified, and \<open>open_log\<close>, the paths \<^verbatim>\<open>factory.getArchive\<close> has been called with, in
  order (a ghost field: it records the open attempts).
\<close>

record 'a Procedural =
  filepath :: string
  frame :: rat
  frame_rate :: rat
  objects :: "AlembicObject list"
  archive :: "'a option"
  objects_loaded :: bool
  socket_modified :: bool
  open_log :: "string list"

text \<open>
  What \<^verbatim>\<open>generate\<close> calls outside itself: the archive factory, \<^verbatim>\<open>load_objects\<close> (the walk
  of the archive's hierarchy), \<^verbatim>\<open>is_constant\<close> (render/alembic.h, not among the
  sources), the dispatch to \<^verbatim>\<open>read_mesh\<close> or \<^verbatim>\<open>read_curves\<close> by the kind of the object's
  archive node, and the \<^verbatim>\<open>float\<close> division of the frame by the frame rate.
\<close>

record 'a environment =
  getArchive :: "string \<Rightarrow> 'a option"
  load_objects :: "'a \<Rightarrow> AlembicObject list \<Rightarrow> AlembicObject list"
  is_constant :: "AlembicObject \<Rightarrow> bool"
  read_object :: "'a \<Rightarrow> chrono_t \<Rightarrow> AlembicObject \<Rightarrow> AlembicObject"
  float_div :: "rat \<Rightarrow> rat \<Rightarrow> rat"

text \<open>
  Modelled from the spec: \<^verbatim>\<open>is_modified\<close>, \<^verbatim>\<open>clear_modified\<close> and the socket setters
  belong to the node base class (graph/node.h, not among the sources). The
  specification (4.5, 6) has the driver short-circuit when no declared input (path,
  frame, frame rate, objects) changed since the last run; a setter marks the node
  modified when it changes the value.
\<close>

definition is_modified :: "'a Procedural \<Rightarrow> bool" where
  "is_modified st = socket_modified st"

definition clear_modified :: "'a Procedural \<Rightarrow> 'a Procedural" where
  "clear_modified st = st\<lparr>socket_modified := False\<rparr>"

definition set_filepath :: "string \<Rightarrow> 'a Procedural \<Rightarrow> 'a Procedural" where
  "set_filepath p st = (if filepath st = p then st else st\<lparr>filepath := p, socket_modified := True\<rparr>)"

definition set_frame :: "rat \<Rightarrow> 'a Procedural \<Rightarrow> 'a Procedural" where
  "set_frame f st = (if frame st = f then st else st\<lparr>frame := f, socket_modified := True\<rparr>)"

definition set_frame_rate :: "rat \<Rightarrow> 'a Procedural \<Rightarrow> 'a Procedural" where
  "set_frame_rate f st = (if frame_rate st = f then st else st\<lparr>frame_rate := f, socket_modified := True\<rparr>)"

text \<open>
  The loop of \<^verbatim>\<open>generate\<close> over the objects; the flag says whether the loop returned on
  cancellation.
\<close>

fun update_objects :: "'a environment \<Rightarrow> (nat \<Rightarrow> bool) \<Rightarrow> 'a \<Rightarrow> chrono_t \<Rightarrow> nat \<Rightarrow> AlembicObject list \<Rightarrow> bool \<times> AlembicObject list" where
  "update_objects env cancel a frame_time i [] = (False, [])"
| "update_objects env cancel a frame_time i (object # rest) =
     (if cancel i then (True, object # rest)
      else
        let object' = (if data_loaded object \<and> is_constant env object then object
                       else read_object env a frame_time object)
        in case update_objects env cancel a frame_time (Suc i) rest of
             (cancelled, rest') \<Rightarrow> (cancelled, object' # rest'))"

text \<open>\<^verbatim>\<open>generate\<close> from \<^verbatim>\<open>if (!objects_loaded)\<close> on, with the valid archive \<open>a\<close>.\<close>

definition generate_objects :: "'a environment \<Rightarrow> (nat \<Rightarrow> bool) \<Rightarrow> 'a \<Rightarrow> 'a Procedural \<Rightarrow> 'a Procedural" where
  "generate_objects env cancel a st =
     (let st1 = (if \<not> objects_loaded st
                 then st\<lparr>objects := load_objects env a (objects st), objects_loaded := True\<rparr>
                 else st);
          frame_time = float_div env (frame st1) (frame_rate st1)
      in case update_objects env cancel a frame_time 0 (objects st1) of
           (True, objs) \<Rightarrow> st1\<lparr>objects := objs\<rparr>
         | (False, objs) \<Rightarrow> clear_modified (st1\<lparr>objects := objs\<rparr>))"

definition generate :: "'a environment \<Rightarrow> (nat \<Rightarrow> bool) \<Rightarrow> 'a Procedural \<Rightarrow> 'a Procedural" where
  "generate env cancel st =
     (if \<not> is_modified st then st
      else case archive st of
             Some a \<Rightarrow> generate_objects env cancel a st
           | None \<Rightarrow>
               let st1 = st\<lparr>archive := getArchive env (filepath st),
                            open_log := open_log st @ [filepath st]\<rparr>
               in (case archive st1 of
                     None \<Rightarrow> clear_modified (st1\<lparr>filepath := []\<rparr>)
                   | Some a \<Rightarrow> generate_objects env cancel a st1))"

text \<open>What a caller does with the driver, and a run of such steps.\<close>

datatype driver_op = Generate | SetFilepath string | SetFrame rat | SetFrameRate rat

fun driver_step :: "'a environment \<Rightarrow> (nat \<Rightarrow> bool) \<Rightarrow> driver_op \<Rightarrow> 'a Procedural \<Rightarrow> 'a Procedural" where
  "driver_step env cancel Generate st = generate env cancel st"
| "driver_step env cancel (SetFilepath p) st = set_filepath p st"
| "driver_step env cancel (SetFrame f) st = set_frame f st"
| "driver_step env cancel (SetFrameRate f) st = set_frame_rate f st"

definition run :: "'a environment \<Rightarrow> (nat \<Rightarrow> bool) \<Rightarrow> driver_op list \<Rightarrow> 'a Procedural \<Rightarrow> 'a Procedural" where
  "run env cancel steps st = fold (driver_step env cancel) steps st"





text \<open>
  Two more examples: a curves schema and a mesh schema of two samples each, and the
  caches that hold what their first sample writes.
\<close>

definition two_curve_samples :: "curves_sample list" where
  "two_curve_samples =
     [\<lparr>cs_time = 0, cs_num_vertices = [2], cs_positions = [Vec3 0 0 0, Vec3 1 2 3]\<rparr>,
      \<lparr>cs_time = 1, cs_num_vertices = [2], cs_positions = [Vec3 0 0 0, Vec3 4 5 6]\<rparr>]"

definition two_mesh_samples :: PolyMeshSchema where
  "two_mesh_samples =
     \<lparr>pm_samples =
        [\<lparr>ms_time = 0, ms_positions = Some [Vec3 0 0 0, Vec3 1 0 0, Vec3 0 1 0],
          ms_face_counts = Some [3], ms_face_indices = Some [0, 1, 2]\<rparr>,
         \<lparr>ms_time = 1, ms_positions = Some [Vec3 0 0 0, Vec3 2 0 0, Vec3 0 2 0],
          ms_face_counts = Some [3], ms_face_indices = Some [0, 1, 2]\<rparr>],
      pm_arb_geom_params = [(''uv'', \<lambda>i cd. Some ([10, 20, 30], of_nat i))],
      pm_default_uvs = None\<rparr>"

definition curves_after_first :: CachedData where
  "curves_after_first =
     cached_data_clear
       \<lparr>curve_keys := [(0, [Vec3 0 0 0, Vec3 1 (- 3) 2])],
        curve_radius := [(0, [curve_radius_placeholder, curve_radius_placeholder])],
        curve_first_key := [(0, [0])],
        curve_shader := [(0, [0])]\<rparr>"

definition mesh_after_first :: CachedData where
  "mesh_after_first =
     cached_data_clear
       \<lparr>vertices := [(0, [Vec3 0 0 0, Vec3 1 0 0, Vec3 0 0 1])],
        triangles := [(0, [(0, 1, 2)])],
        triangles_loops := [(0, [(0, 1, 2)])],
        attributes := [\<lparr>attr_name = ''uv'', attr_data = [(0, [10, 20, 30])]\<rparr>]\<rparr>"



section \<open>Properties of the sample maps\<close>

lemma map_of_absent: "k \<notin> keys xs \<Longrightarrow> map_of xs k = None"
  unfolding keys_def by (simp add: map_of_eq_None_iff)

lemma keys_dom: "keys xs = dom (map_of xs)"
  by (simp add: keys_def dom_map_of_conv_image_fst)

lemma hd_key_Min: "map_inv xs \<Longrightarrow> xs \<noteq> [] \<Longrightarrow> fst (hd xs) = Min (keys xs)"
proof -
  assume a: "map_inv xs" "xs \<noteq> []"
  then obtain p ps where xs: "xs = p # ps" by (cases xs) auto
  with a have "\<forall>k \<in> keys ps. fst p < k"
    by (auto simp: map_inv_def keys_def)
  then have "Min (insert (fst p) (keys ps)) = fst p"
    by (intro Min_eqI) (auto simp: keys_def less_imp_le)
  then show ?thesis using xs by (simp add: keys_def)
qed

lemma last_key_Max: "map_inv xs \<Longrightarrow> xs \<noteq> [] \<Longrightarrow> fst (last xs) = Max (keys xs)"
proof -
  assume a: "map_inv xs" "xs \<noteq> []"
  then obtain ps p where xs: "xs = ps @ [p]" by (cases xs rule: rev_cases) auto
  with a have "\<forall>k \<in> keys ps. k < fst p"
    by (auto simp: map_inv_def keys_def sorted_wrt_append)
  then have "Max (insert (fst p) (keys ps)) = fst p"
    by (intro Max_eqI) (auto simp: keys_def less_imp_le)
  then show ?thesis using xs by (simp add: keys_def)
qed

lemma map_inv_distinct: "map_inv xs \<Longrightarrow> distinct (map fst xs)"
  unfolding map_inv_def by (simp add: strict_sorted_iff)

lemma map_of_hd: "map_inv xs \<Longrightarrow> xs \<noteq> [] \<Longrightarrow> map_of xs (fst (hd xs)) = Some (snd (hd xs))"
  by (cases xs) auto

lemma map_of_last: "map_inv xs \<Longrightarrow> xs \<noteq> [] \<Longrightarrow> map_of xs (fst (last xs)) = Some (snd (last xs))"
  using map_inv_distinct [of xs] by (simp add: map_of_eq_Some_iff)

lemma map_of_map_assign: "map_of (map_assign k v xs) = (map_of xs)(k \<mapsto> v)"
  by (induction xs) (auto simp: fun_upd_twist)

lemma keys_map_assign: "keys (map_assign k v xs) = insert k (keys xs)"
  by (simp add: keys_dom map_of_map_assign)

lemma map_inv_map_assign: "map_inv xs \<Longrightarrow> map_inv (map_assign k v xs)"
  unfolding map_inv_def
proof (induction xs)
  case Nil then show ?case by simp
next
  case (Cons p xs)
  have "set (map fst (map_assign k v xs)) = insert k (set (map fst xs))"
    using keys_map_assign [of k v xs] by (simp add: keys_def)
  with Cons show ?case by (cases p) auto
qed

lemma length_map_assign: "length (map_assign k v xs) \<le> Suc (length xs)"
  by (induction xs) auto

lemma set_set_insert: "set (set_insert k xs) = insert k (set xs)"
  by (induction xs) auto

lemma set_fold_set_insert: "set (fold set_insert ks acc) = set ks \<union> set acc"
  by (induction ks arbitrary: acc) (auto simp: set_set_insert)

lemma map_of_fold_assign:
  "map_of (fold (\<lambda>t out. map_assign t (g t) out) ts out) t =
     (if t \<in> set ts then Some (g t) else map_of out t)"
  by (induction ts arbitrary: out) (auto simp: map_of_map_assign)

lemma keys_fold_assign:
  "keys (fold (\<lambda>t out. map_assign t (g t) out) ts out) = set ts \<union> keys out"
  by (induction ts arbitrary: out) (auto simp: keys_map_assign)

lemma map_inv_fold_assign:
  "map_inv out \<Longrightarrow> map_inv (fold (\<lambda>t out. map_assign t (g t) out) ts out)"
  by (induction ts arbitrary: out) (auto simp: map_inv_map_assign)

section \<open>Lookup and interpolation\<close>

text \<open>
  C10: on the empty sample set the interpolation returns the identity matrix for every
  query time, and the exact-match lookup returns the identity matrix for every time
  that is not a key of the set.
\<close>

theorem C10_identity_when_absent:
  "get_interpolated_matrix_for_time ops [] time = Some M44d_identity \<and>
   (time \<notin> keys samples \<longrightarrow> get_matrix_for_time samples time = M44d_identity)"
  by (simp add: get_interpolated_matrix_for_time_def get_matrix_for_time_def map_of_absent)

theorem C10_identity_when_absent_witness:
  "\<forall>ops. get_interpolated_matrix_for_time ops [] 5 = Some M44d_identity \<and>
         (7::chrono_t) \<notin> keys [(2, M44d_fill 3)] \<and>
         get_matrix_for_time [(2, M44d_fill 3)] 7 = M44d_identity"
proof
  fix ops :: "'a numerics"
  have k: "(7::chrono_t) \<notin> keys [(2, M44d_fill 3)]"
    by (simp add: keys_def)
  show "get_interpolated_matrix_for_time ops [] 5 = Some M44d_identity \<and>
         (7::chrono_t) \<notin> keys [(2, M44d_fill 3)] \<and>
         get_matrix_for_time [(2, M44d_fill 3)] 7 = M44d_identity"
    using k C10_identity_when_absent [of ops 7 "[(2, M44d_fill 3)]"]
      C10_identity_when_absent [of ops 5 "[]"]
    by blast
qed

text \<open>
  C5: for a non-empty sample set the interpolation returns (no exception leaves it):
  the stored sample when the query time is a key; the only sample of a one-sample set
  at every time; the sample at the smallest key for a time at or below it; and the
  sample at the largest key for a time at or above it.
\<close>

theorem C5_interpolation_boundaries:
  assumes inv: "map_inv samples" and ne: "samples \<noteq> []"
  shows "(map_of samples time = Some m \<longrightarrow>
            get_interpolated_matrix_for_time ops samples time = Some m) \<and>
         (length samples = 1 \<longrightarrow>
            get_interpolated_matrix_for_time ops samples time = Some (snd (hd samples))) \<and>
         (time \<le> Min (keys samples) \<longrightarrow>
            (\<exists>m. map_of samples (Min (keys samples)) = Some m \<and>
                 get_interpolated_matrix_for_time ops samples time = Some m)) \<and>
         (time \<ge> Max (keys samples) \<longrightarrow>
            (\<exists>m. map_of samples (Max (keys samples)) = Some m \<and>
                 get_interpolated_matrix_for_time ops samples time = Some m))"
proof (intro conjI impI)
  assume "map_of samples time = Some m"
  then show "get_interpolated_matrix_for_time ops samples time = Some m"
    using ne by (simp add: get_interpolated_matrix_for_time_def)
next
  assume one: "length samples = 1"
  then obtain p where s: "samples = [p]" by (cases samples) auto
  show "get_interpolated_matrix_for_time ops samples time = Some (snd (hd samples))"
    unfolding s by (cases p) (simp add: get_interpolated_matrix_for_time_def)
next
  assume le: "time \<le> Min (keys samples)"
  have hdk: "fst (hd samples) = Min (keys samples)" using inv ne by (rule hd_key_Min)
  have "get_interpolated_matrix_for_time ops samples time = map_of samples (Min (keys samples))"
  proof (cases "map_of samples time")
    case None
    then have "get_interpolated_matrix_for_time ops samples time = Some (snd (hd samples))"
      using ne le hdk by (simp add: get_interpolated_matrix_for_time_def)
    then show ?thesis using map_of_hd [OF inv ne] hdk by simp
  next
    case (Some v)
    then have "time \<in> keys samples" unfolding keys_def by (metis map_of_SomeD fst_conv image_eqI)
    then have "Min (keys samples) \<le> time" by (simp add: keys_def)
    with le have "time = Min (keys samples)" by simp
    then show ?thesis using Some ne by (simp add: get_interpolated_matrix_for_time_def)
  qed
  moreover have "map_of samples (Min (keys samples)) = Some (snd (hd samples))"
    using map_of_hd [OF inv ne] hdk by simp
  ultimately show "\<exists>m. map_of samples (Min (keys samples)) = Some m \<and>
                 get_interpolated_matrix_for_time ops samples time = Some m"
    by simp
next
  assume ge: "time \<ge> Max (keys samples)"
  have hdk: "fst (hd samples) = Min (keys samples)" using inv ne by (rule hd_key_Min)
  have lak: "fst (last samples) = Max (keys samples)" using inv ne by (rule last_key_Max)
  have fin: "finite (keys samples)" "keys samples \<noteq> {}" using ne by (auto simp: keys_def)
  have "get_interpolated_matrix_for_time ops samples time = map_of samples (Max (keys samples))"
  proof (cases "map_of samples time")
    case None
    have notkey: "time \<notin> keys samples" using None unfolding keys_def
      by (metis map_of_eq_None_iff)
    show ?thesis
    proof (cases "length samples = 1")
      case True
      then obtain p where s: "samples = [p]" by (cases samples) auto
      show ?thesis using None unfolding s
        by (cases p) (simp add: get_interpolated_matrix_for_time_def keys_def split: if_splits)
    next
      case False
      have "Min (keys samples) \<le> Max (keys samples)" using fin by simp
      moreover have "Min (keys samples) \<in> keys samples" using fin by simp
      ultimately have "\<not> time \<le> fst (hd samples)" using ge notkey hdk
        by (metis order.trans order.antisym)
      then have "get_interpolated_matrix_for_time ops samples time = Some (snd (last samples))"
        using ne None False ge lak by (simp add: get_interpolated_matrix_for_time_def)
      then show ?thesis using map_of_last [OF inv ne] lak by simp
    qed
  next
    case (Some v)
    then have "time \<in> keys samples" unfolding keys_def by (metis map_of_SomeD fst_conv image_eqI)
    then have "time \<le> Max (keys samples)" by (simp add: keys_def)
    with ge have "time = Max (keys samples)" by simp
    then show ?thesis using Some ne by (simp add: get_interpolated_matrix_for_time_def)
  qed
  moreover have "map_of samples (Max (keys samples)) = Some (snd (last samples))"
    using map_of_last [OF inv ne] lak by simp
  ultimately show "\<exists>m. map_of samples (Max (keys samples)) = Some m \<and>
                 get_interpolated_matrix_for_time ops samples time = Some m"
    by simp
qed

theorem C5_interpolation_boundaries_witness:
  "\<forall>ops. map_inv [(0::chrono_t, M44d_identity), (1, M44d_fill 2)] \<and>
         get_interpolated_matrix_for_time ops [(0, M44d_identity), (1, M44d_fill 2)] 1 = Some (M44d_fill 2) \<and>
         get_interpolated_matrix_for_time ops [(0, M44d_identity), (1, M44d_fill 2)] (- 3) = Some M44d_identity \<and>
         get_interpolated_matrix_for_time ops [(0, M44d_identity), (1, M44d_fill 2)] 7 = Some (M44d_fill 2) \<and>
         get_interpolated_matrix_for_time ops [(4, M44d_fill 2)] 9 = Some (M44d_fill 2)"
proof
  fix ops :: "'a numerics"
  let ?two = "[(0::chrono_t, M44d_identity), (1, M44d_fill 2)]"
  let ?one = "[(4::chrono_t, M44d_fill 2)]"
  have inv2: "map_inv ?two" and inv1: "map_inv ?one" by (simp_all add: map_inv_def)
  have k2: "Min (keys ?two) = 0" "Max (keys ?two) = 1" by (simp_all add: keys_def)
  have a: "get_interpolated_matrix_for_time ops ?two 1 = Some (M44d_fill 2)"
    using C5_interpolation_boundaries [OF inv2, of 1 "M44d_fill 2" ops] by simp
  have b: "get_interpolated_matrix_for_time ops ?two (- 3) = Some M44d_identity"
    using C5_interpolation_boundaries [OF inv2, of "- 3" m ops] k2 by simp
  have c: "get_interpolated_matrix_for_time ops ?two 7 = Some (M44d_fill 2)"
    using C5_interpolation_boundaries [OF inv2, of 7 m ops] k2 by simp
  have d: "get_interpolated_matrix_for_time ops ?one 9 = Some (M44d_fill 2)"
    using C5_interpolation_boundaries [OF inv1, of 9 m ops] by simp
  show "map_inv ?two \<and>
         get_interpolated_matrix_for_time ops ?two 1 = Some (M44d_fill 2) \<and>
         get_interpolated_matrix_for_time ops ?two (- 3) = Some M44d_identity \<and>
         get_interpolated_matrix_for_time ops ?two 7 = Some (M44d_fill 2) \<and>
         get_interpolated_matrix_for_time ops ?one 9 = Some (M44d_fill 2)"
    using inv2 a b c d by simp
qed

text \<open>
  What the search loop computes, for every sample list: \<open>prev_time\<close> ends as the
  largest of its start value and the keys at or below the query time, and \<open>next_time\<close>
  as the largest of its start value and the keys at or above the query time. Started
  at the largest key, \<open>next_time\<close> never moves.
\<close>

lemma Max_insert_insert:
  fixes S :: "'a::linorder set"
  assumes "finite S"
  shows "Max (insert p (insert c S)) = Max (insert (max p c) S)"
proof (cases "S = {}")
  case True
  then show ?thesis by simp
next
  case False
  then show ?thesis using assms by (simp add: max.assoc)
qed

lemma find_prev_next_fst:
  "fst (find_prev_next xs time (p, n)) = Max (insert p {k \<in> keys xs. k \<le> time})"
proof (induction xs arbitrary: p n)
  case Nil
  then show ?case by (simp add: keys_def)
next
  case (Cons e xs)
  obtain c m where e: "e = (c, m)" by (cases e)
  define S where "S = {k \<in> keys xs. k \<le> time}"
  have fin: "finite S" by (simp add: S_def keys_def)
  have split: "{k \<in> keys (e # xs). k \<le> time} = (if c \<le> time then insert c S else S)"
    unfolding e S_def by (auto simp: keys_def)
  have IH: "\<And>p n. fst (find_prev_next xs time (p, n)) = Max (insert p S)"
    using Cons.IH unfolding S_def .
  show ?case
  proof (cases "c \<le> time")
    case True
    have "(if p < c then c else p) = max p c" by (simp add: max_def)
    then show ?thesis
      using True IH split Max_insert_insert [OF fin, of p c] unfolding e by simp
  next
    case False
    then show ?thesis using IH split unfolding e by simp
  qed
qed

lemma find_prev_next_snd:
  "\<forall>k \<in> keys xs. k \<le> n \<Longrightarrow> snd (find_prev_next xs time (p, n)) = n"
  by (induction xs arbitrary: p) (auto simp: keys_def)

lemma find_prev_next_next_is_last:
  assumes "map_inv samples" "samples \<noteq> []"
  shows "snd (find_prev_next samples time (p, fst (last samples))) = Max (keys samples)"
proof -
  have "fst (last samples) = Max (keys samples)" using assms by (rule last_key_Max)
  moreover have "\<forall>k \<in> keys samples. k \<le> Max (keys samples)"
    by (simp add: keys_def)
  ultimately show ?thesis by (simp add: find_prev_next_snd)
qed

text \<open>
  C1: the claim is that a query time strictly between the smallest and the largest key
  that is no key is interpolated between the tightest bracketing pair of samples. The
  search loop tests \<^verbatim>\<open>current_time > next_time\<close> where the smallest key at or above the
  query time needs \<^verbatim>\<open>current_time < next_time\<close>, so \<open>next_time\<close> stays the largest key.
  With samples at the times 0, 1 and 2 (the identity, a translation by (0, 1, 0), the
  identity) and the query time 1/2, the result is what the blend of the samples at 0
  and 2, two identity matrices, gives at the factor got from 0 and 2; the sample at
  time 1 is not used.
\<close>

theorem C1_next_sample_is_last:
  "get_interpolated_matrix_for_time ops
     [(0, M44d_identity),
      (1, M44 (Vec4 1 0 0 0) (Vec4 0 1 0 0) (Vec4 0 0 1 0) (Vec4 0 1 0 1)),
      (2, M44d_identity)] (1 / 2)
   = interpolate_matrices ops M44d_identity M44d_identity
       (double_div ops (double_sub ops (1 / 2) 0) (double_sub ops 2 0))"
  by (simp add: get_interpolated_matrix_for_time_def get_matrix_for_time_def)

text \<open>
  What the source computes for a query time strictly between the smallest and the
  largest key that is no key: the blend of the sample at the largest key at or below
  the query time with the sample at the largest key of the set, at the factor got from
  these two times.
\<close>

theorem interpolation_between_prev_and_last:
  assumes inv: "map_inv samples" and ne: "samples \<noteq> []" and nk: "time \<notin> keys samples"
    and lo: "Min (keys samples) < time" and hi: "time < Max (keys samples)"
  shows "get_interpolated_matrix_for_time ops samples time =
     interpolate_matrices ops
       (the (map_of samples (Max {k \<in> keys samples. k \<le> time})))
       (snd (last samples))
       (double_div ops (double_sub ops time (Max {k \<in> keys samples. k \<le> time}))
                       (double_sub ops (Max (keys samples)) (Max {k \<in> keys samples. k \<le> time})))"
proof -
  let ?S = "{k \<in> keys samples. k \<le> time}"
  have hdk: "fst (hd samples) = Min (keys samples)" using inv ne by (rule hd_key_Min)
  have lak: "fst (last samples) = Max (keys samples)" using inv ne by (rule last_key_Max)
  have fin: "finite (keys samples)" "keys samples \<noteq> {}" using ne by (auto simp: keys_def)
  have none: "map_of samples time = None" using nk by (rule map_of_absent)
  have len: "length samples \<noteq> 1"
  proof
    assume "length samples = 1"
    then obtain p where "samples = [p]" by (cases samples) auto
    then have "Min (keys samples) = Max (keys samples)" by (simp add: keys_def)
    then show False using lo hi by simp
  qed
  have minS: "Min (keys samples) \<in> ?S" using fin lo by simp
  have finS: "finite ?S" using fin by simp
  have "insert (Min (keys samples)) ?S = ?S" using minS by auto
  then have prev: "fst (find_prev_next samples time (fst (hd samples), fst (last samples))) = Max ?S"
    by (simp add: find_prev_next_fst hdk)
  have nxt: "snd (find_prev_next samples time (fst (hd samples), fst (last samples))) = Max (keys samples)"
    using inv ne by (rule find_prev_next_next_is_last)
  have "Max ?S \<in> ?S" using finS minS by (intro Max_in) auto
  then have "Max ?S \<in> keys samples" by simp
  then obtain v where v: "map_of samples (Max ?S) = Some v"
    unfolding keys_dom by auto
  have pm: "get_matrix_for_time samples (Max ?S) = the (map_of samples (Max ?S))"
    by (simp add: get_matrix_for_time_def v)
  have nm: "get_matrix_for_time samples (Max (keys samples)) = snd (last samples)"
    using map_of_last [OF inv ne] lak by (simp add: get_matrix_for_time_def)
  obtain p n where pn: "find_prev_next samples time (fst (hd samples), fst (last samples)) = (p, n)"
    by (cases "find_prev_next samples time (fst (hd samples), fst (last samples))")
  have p: "p = Max ?S" and n: "n = Max (keys samples)" using prev nxt pn by simp_all
  show ?thesis
    using ne none len lo hi hdk lak pn
    by (simp add: get_interpolated_matrix_for_time_def Let_def p n pm nm)
qed

theorem interpolation_between_prev_and_last_witness:
  "\<forall>ops. get_interpolated_matrix_for_time ops
        [(0, M44d_fill 1), (1, M44d_fill 2), (2, M44d_fill 3), (3, M44d_fill 4)] (3 / 2)
      = interpolate_matrices ops (M44d_fill 2) (M44d_fill 4)
          (double_div ops (double_sub ops (3 / 2) 1) (double_sub ops 3 1))"
proof
  fix ops :: "'a numerics"
  let ?s = "[(0::chrono_t, M44d_fill 1), (1, M44d_fill 2), (2, M44d_fill 3), (3, M44d_fill 4)]"
  have inv: "map_inv ?s" by (simp add: map_inv_def)
  have ne: "?s \<noteq> []" by simp
  have nk: "(3 / 2 :: chrono_t) \<notin> keys ?s" by (simp add: keys_def)
  have mn: "Min (keys ?s) = 0" and mx: "Max (keys ?s) = 3" by (simp_all add: keys_def)
  have S: "{k \<in> keys ?s. k \<le> 3 / 2} = {0, 1}" by (auto simp: keys_def)
  have ms: "Max {k \<in> keys ?s. k \<le> 3 / 2} = 1" unfolding S by simp
  have lo: "Min (keys ?s) < 3 / 2" and hi: "3 / 2 < Max (keys ?s)" unfolding mn mx by simp_all
  show "get_interpolated_matrix_for_time ops ?s (3 / 2)
      = interpolate_matrices ops (M44d_fill 2) (M44d_fill 4)
          (double_div ops (double_sub ops (3 / 2) 1) (double_sub ops 3 1))"
    using interpolation_between_prev_and_last [OF inv ne nk lo hi, of ops]
    unfolding ms mx by simp
qed

section \<open>Concatenation\<close>

lemma concatenate_loop_Some:
  assumes "concatenate_loop ops P L ts out = Some out'"
  shows "keys out' = set ts \<union> keys out \<and>
         (\<forall>t \<in> set ts. \<exists>pm lm.
            get_interpolated_matrix_for_time ops P t = Some pm \<and>
            get_interpolated_matrix_for_time ops L t = Some lm \<and>
            map_of out' t = Some (mat_mul ops lm pm)) \<and>
         (\<forall>t. t \<notin> set ts \<longrightarrow> map_of out' t = map_of out t) \<and>
         (map_inv out \<longrightarrow> map_inv out')"
  using assms
proof (induction ts arbitrary: out)
  case Nil
  then show ?case by simp
next
  case (Cons t ts)
  from Cons.prems obtain pm lm where
    pm: "get_interpolated_matrix_for_time ops P t = Some pm" and
    lm: "get_interpolated_matrix_for_time ops L t = Some lm" and
    r: "concatenate_loop ops P L ts (map_assign t (mat_mul ops lm pm) out) = Some out'"
    by (auto split: option.splits)
  note IH = Cons.IH [OF r]
  have k: "keys out' = set (t # ts) \<union> keys out"
    using IH by (auto simp: keys_map_assign)
  have frame: "\<forall>u. u \<notin> set (t # ts) \<longrightarrow> map_of out' u = map_of out u"
    using IH by (simp add: map_of_map_assign)
  have inv: "map_inv out \<longrightarrow> map_inv out'"
    using IH by (simp add: map_inv_map_assign)
  have here: "map_of out' t = Some (mat_mul ops lm pm)"
  proof (cases "t \<in> set ts")
    case True
    then show ?thesis using IH pm lm by auto
  next
    case False
    then show ?thesis using IH by (simp add: map_of_map_assign)
  qed
  have "\<forall>u \<in> set (t # ts). \<exists>pm lm.
            get_interpolated_matrix_for_time ops P u = Some pm \<and>
            get_interpolated_matrix_for_time ops L u = Some lm \<and>
            map_of out' u = Some (mat_mul ops lm pm)"
    using IH here pm lm by auto
  then show ?case using k frame inv by blast
qed

lemma concatenate_loop_None:
  "concatenate_loop ops P L ts out = None \<longleftrightarrow>
     (\<exists>t \<in> set ts. get_interpolated_matrix_for_time ops P t = None \<or>
                     get_interpolated_matrix_for_time ops L t = None)"
  by (induction ts arbitrary: out) (auto split: option.splits)

lemma set_union_of_samples:
  "set (fold set_insert (map fst L) (fold set_insert (map fst P) [])) = keys P \<union> keys L"
  by (auto simp: set_fold_set_insert keys_def)

text \<open>
  The concatenation relative to the interpolation of the source itself: called with an
  empty output map, as its one caller \<^verbatim>\<open>walk_hierarchy\<close> does, it ends in an exception
  exactly when one of the interpolations at a time of the union of the two key sets
  does; otherwise it yields a map with strictly increasing keys whose key set is that
  union and whose matrix at each such time is the local matrix got from the source's
  interpolation multiplied by the parent matrix got from it, in that order.
\<close>

theorem concatenate_of_source_interpolation:
  "(concatenate_xform_samples ops parent_samples local_samples [] = None \<longleftrightarrow>
      (\<exists>t \<in> keys parent_samples \<union> keys local_samples.
         get_interpolated_matrix_for_time ops parent_samples t = None \<or>
         get_interpolated_matrix_for_time ops local_samples t = None)) \<and>
   (\<forall>out. concatenate_xform_samples ops parent_samples local_samples [] = Some out \<longrightarrow>
      keys out = keys parent_samples \<union> keys local_samples \<and>
      map_inv out \<and>
      (\<forall>t \<in> keys parent_samples \<union> keys local_samples. \<exists>pm lm.
         get_interpolated_matrix_for_time ops parent_samples t = Some pm \<and>
         get_interpolated_matrix_for_time ops local_samples t = Some lm \<and>
         map_of out t = Some (mat_mul ops lm pm)))"
proof (intro conjI allI impI)
  show "concatenate_xform_samples ops parent_samples local_samples [] = None \<longleftrightarrow>
      (\<exists>t \<in> keys parent_samples \<union> keys local_samples.
         get_interpolated_matrix_for_time ops parent_samples t = None \<or>
         get_interpolated_matrix_for_time ops local_samples t = None)"
    by (simp add: concatenate_xform_samples_def concatenate_loop_None set_union_of_samples)
next
  fix out
  assume "concatenate_xform_samples ops parent_samples local_samples [] = Some out"
  then have l: "concatenate_loop ops parent_samples local_samples
      (fold set_insert (map fst local_samples) (fold set_insert (map fst parent_samples) [])) [] = Some out"
    by (simp add: concatenate_xform_samples_def)
  have e: "map_inv ([] :: MatrixSampleMap)" "keys ([] :: MatrixSampleMap) = {}"
    by (simp_all add: map_inv_def keys_def)
  note facts = concatenate_loop_Some [OF l, unfolded set_union_of_samples]
  show "keys out = keys parent_samples \<union> keys local_samples" using facts e by simp
  show "map_inv out" using facts e by simp
  show "\<forall>t \<in> keys parent_samples \<union> keys local_samples. \<exists>pm lm.
         get_interpolated_matrix_for_time ops parent_samples t = Some pm \<and>
         get_interpolated_matrix_for_time ops local_samples t = Some lm \<and>
         map_of out t = Some (mat_mul ops lm pm)"
    using facts by blast
qed

theorem concatenate_of_source_interpolation_witness:
  "\<forall>ops. \<exists>out.
     concatenate_xform_samples ops [(0, M44d_fill 2), (2, M44d_fill 3)] [(2, M44d_fill 5)] [] = Some out \<and>
     keys out = {0, 2} \<and>
     map_of out 2 = Some (mat_mul ops (M44d_fill 5) (M44d_fill 3))"
proof
  fix ops :: "'a numerics"
  let ?P = "[(0::chrono_t, M44d_fill 2), (2, M44d_fill 3)]"
  let ?L = "[(2::chrono_t, M44d_fill 5)]"
  have k: "keys ?P \<union> keys ?L = {0, 2}" by (auto simp: keys_def)
  have l: "\<And>t. get_interpolated_matrix_for_time ops ?L t = Some (M44d_fill 5)"
    by (simp add: get_interpolated_matrix_for_time_def)
  have p0: "get_interpolated_matrix_for_time ops ?P 0 = Some (M44d_fill 2)"
    and p2: "get_interpolated_matrix_for_time ops ?P 2 = Some (M44d_fill 3)"
    by (simp_all add: get_interpolated_matrix_for_time_def)
  note inst = concatenate_of_source_interpolation [of ops ?P ?L, unfolded k]
  have "concatenate_xform_samples ops ?P ?L [] \<noteq> None"
    using inst l p0 p2 by auto
  then obtain out where out: "concatenate_xform_samples ops ?P ?L [] = Some out" by auto
  have ko: "keys out = {0, 2}" using inst out by blast
  have "\<exists>pm lm. get_interpolated_matrix_for_time ops ?P 2 = Some pm \<and>
         get_interpolated_matrix_for_time ops ?L 2 = Some lm \<and>
         map_of out 2 = Some (mat_mul ops lm pm)"
    using inst out by blast
  then have m2: "map_of out 2 = Some (mat_mul ops (M44d_fill 5) (M44d_fill 3))"
    using l p2 by auto
  show "\<exists>out. concatenate_xform_samples ops ?P ?L [] = Some out \<and> keys out = {0, 2} \<and>
     map_of out 2 = Some (mat_mul ops (M44d_fill 5) (M44d_fill 3))"
    using out ko m2 by blast
qed

text \<open>
  C4: the claim is that the matrix of the concatenation at each time of the union is
  the interpolated local matrix multiplied by the interpolated parent matrix, where
  the interpolation between two samples uses the tightest bracketing pair. The
  concatenation calls \<^verbatim>\<open>get_interpolated_matrix_for_time\<close>, whose search for the next
  sample always ends at the largest key (see C1). With parent samples at the times 0,
  1 and 2 (the identity, a translation by (0, 1, 0), the identity) and one local sample
  at time 1/2 (a translation by (1, 0, 0)), the entry at time 1/2 is the local matrix
  multiplied by the blend of the parent samples at 0 and 2, two identity matrices, at
  the factor got from 0 and 2; the parent sample at time 1, which brackets 1/2 from
  above, is not used for it.
\<close>

theorem C4_concatenate_uses_last_parent_sample:
  "concatenate_xform_samples ops
     [(0, M44d_identity),
      (1, M44 (Vec4 1 0 0 0) (Vec4 0 1 0 0) (Vec4 0 0 1 0) (Vec4 0 1 0 1)),
      (2, M44d_identity)]
     [(1 / 2, M44 (Vec4 1 0 0 0) (Vec4 0 1 0 0) (Vec4 0 0 1 0) (Vec4 1 0 0 1))] []
   = (case interpolate_matrices ops M44d_identity M44d_identity
             (double_div ops (double_sub ops (1 / 2) 0) (double_sub ops 2 0)) of
        None \<Rightarrow> None
      | Some blend \<Rightarrow>
          Some [(0, mat_mul ops (M44 (Vec4 1 0 0 0) (Vec4 0 1 0 0) (Vec4 0 0 1 0) (Vec4 1 0 0 1))
                      M44d_identity),
                (1 / 2, mat_mul ops (M44 (Vec4 1 0 0 0) (Vec4 0 1 0 0) (Vec4 0 0 1 0) (Vec4 1 0 0 1))
                          blend),
                (1, mat_mul ops (M44 (Vec4 1 0 0 0) (Vec4 0 1 0 0) (Vec4 0 0 1 0) (Vec4 1 0 0 1))
                      (M44 (Vec4 1 0 0 0) (Vec4 0 1 0 0) (Vec4 0 0 1 0) (Vec4 0 1 0 1))),
                (2, mat_mul ops (M44 (Vec4 1 0 0 0) (Vec4 0 1 0 0) (Vec4 0 0 1 0) (Vec4 1 0 0 1))
                      M44d_identity)])"
  by (simp add: concatenate_xform_samples_def get_interpolated_matrix_for_time_def
        get_matrix_for_time_def split: option.splits)

section \<open>Up-axis conversion\<close>

text \<open>
  C6: a position \<open>(x, y, z)\<close> is remapped to \<open>(x, -z, y)\<close>, and \<^verbatim>\<open>add_positions\<close> stores
  the remapped positions; where the decomposition of Imath returns, \<^verbatim>\<open>convert_yup_zup\<close>
  recomposes a matrix from the decomposed scale remapped to \<open>(x, z, y)\<close>, the decomposed
  rotation remapped to \<open>(x, -z, y)\<close> and the decomposed translation remapped to
  \<open>(x, -z, y)\<close> (and where the decomposition throws, so does the conversion); and the
  position remap followed by the inverse remap \<open>(x, y, z) \<mapsto> (x, z, -y)\<close>, or preceded
  by it, gives back the vector.
\<close>

theorem C6_up_axis_conversion:
  "make_float3_from_yup (Vec3 x y z) = Vec3 x (- z) y \<and>
   add_positions (Some positions) time cd =
     cd\<lparr>vertices := add_data (map make_float3_from_yup positions) time (vertices cd)\<rparr> \<and>
   (extractSHRT ops mtx = Some (scale, shear, rotation, translation) \<longrightarrow>
      convert_yup_zup ops mtx =
        Some (mat_mul ops (mat_mul ops (setScale ops (yup_scale_remap scale))
                                       (setEulerAngles ops (yup_remap rotation)))
                          (setTranslation ops (yup_remap translation)))) \<and>
   (extractSHRT ops mtx = None \<longrightarrow> convert_yup_zup ops mtx = None) \<and>
   yup_remap (Vec3 x y z) = Vec3 x (- z) y \<and>
   yup_scale_remap (Vec3 x y z) = Vec3 x z y \<and>
   make_yup_from_float3 (make_float3_from_yup v) = v \<and>
   make_float3_from_yup (make_yup_from_float3 v) = v"
proof -
  have "convert_yup_zup ops mtx =
        Some (mat_mul ops (mat_mul ops (setScale ops (yup_scale_remap scale))
                                       (setEulerAngles ops (yup_remap rotation)))
                          (setTranslation ops (yup_remap translation)))"
    if "extractSHRT ops mtx = Some (scale, shear, rotation, translation)"
    using that by (cases scale; cases rotation; cases translation)
      (simp add: convert_yup_zup_def)
  moreover have "convert_yup_zup ops mtx = None" if "extractSHRT ops mtx = None"
    using that by (simp add: convert_yup_zup_def)
  moreover have "make_yup_from_float3 (make_float3_from_yup v) = v"
    by (cases v) simp
  moreover have "make_float3_from_yup (make_yup_from_float3 v) = v"
    by (cases v) simp
  ultimately show ?thesis by (simp add: add_positions_def)
qed

theorem C6_up_axis_conversion_witness:
  "\<forall>ops. convert_yup_zup
           (ops\<lparr>extractSHRT := \<lambda>m. Some (Vec3 1 2 3, Vec3 0 0 0, Vec3 4 5 6, Vec3 7 8 9)\<rparr>) M44d_identity =
         Some (mat_mul ops (mat_mul ops (setScale ops (Vec3 1 3 2)) (setEulerAngles ops (Vec3 4 (- 6) 5)))
                           (setTranslation ops (Vec3 7 (- 9) 8))) \<and>
         convert_yup_zup (ops\<lparr>extractSHRT := \<lambda>m. None\<rparr>) (M44d_fill 0) = None \<and>
         make_yup_from_float3 (make_float3_from_yup (Vec3 1 2 3)) = Vec3 1 2 3"
proof
  fix ops :: "'a numerics"
  let ?ops = "ops\<lparr>extractSHRT := \<lambda>m. Some (Vec3 1 2 3, Vec3 0 0 0, Vec3 4 5 6, Vec3 7 8 9)\<rparr>"
  let ?thr = "ops\<lparr>extractSHRT := \<lambda>m. None\<rparr>"
  have h: "extractSHRT ?ops M44d_identity = Some (Vec3 1 2 3, Vec3 0 0 0, Vec3 4 5 6, Vec3 7 8 9)"
    by simp
  have n: "extractSHRT ?thr (M44d_fill 0) = None" by simp
  have a: "convert_yup_zup ?ops M44d_identity =
         Some (mat_mul ops (mat_mul ops (setScale ops (Vec3 1 3 2)) (setEulerAngles ops (Vec3 4 (- 6) 5)))
                           (setTranslation ops (Vec3 7 (- 9) 8)))"
    using h C6_up_axis_conversion [of 1 2 3 "[]" 0 cached_data_clear ?ops M44d_identity
        "Vec3 1 2 3" "Vec3 0 0 0" "Vec3 4 5 6" "Vec3 7 8 9" "Vec3 1 2 3"]
    by simp
  have b: "convert_yup_zup ?thr (M44d_fill 0) = None"
    using n C6_up_axis_conversion [of 1 2 3 "[]" 0 cached_data_clear ?thr "M44d_fill 0"
        "Vec3 1 2 3" "Vec3 0 0 0" "Vec3 4 5 6" "Vec3 7 8 9" "Vec3 1 2 3"]
    by blast
  have c: "make_yup_from_float3 (make_float3_from_yup (Vec3 1 2 3)) = Vec3 1 2 3" by simp
  show "convert_yup_zup ?ops M44d_identity =
         Some (mat_mul ops (mat_mul ops (setScale ops (Vec3 1 3 2)) (setEulerAngles ops (Vec3 4 (- 6) 5)))
                           (setTranslation ops (Vec3 7 (- 9) 8))) \<and>
         convert_yup_zup ?thr (M44d_fill 0) = None \<and>
         make_yup_from_float3 (make_float3_from_yup (Vec3 1 2 3)) = Vec3 1 2 3"
    using a b c by simp
qed

section \<open>Fan triangulation\<close>

lemma array_get_Some:
  "0 \<le> k \<Longrightarrow> k < int (length xs) \<Longrightarrow> length xs < 2 ^ 31 \<Longrightarrow> array_get xs k = Some (xs ! nat k)"
  by (simp add: array_get_def int_ok_def)

lemma add_triangles_fan_eq:
  assumes "0 \<le> off" "\<forall>j \<in> set js. off + int j + 2 < int (length idx)" "length idx < 2 ^ 31"
  shows "add_triangles_fan idx off js (T, L) =
     Some (T @ map (\<lambda>j. (idx ! nat off, idx ! nat (off + int j + 1), idx ! nat (off + int j + 2))) js,
           L @ map (\<lambda>j. (off, off + int j + 1, off + int j + 2)) js)"
  using assms
proof (induction js arbitrary: T L)
  case Nil
  then show ?case by simp
next
  case (Cons j js)
  have a0: "array_get idx off = Some (idx ! nat off)"
    using Cons.prems by (intro array_get_Some) auto
  have a1: "array_get idx (off + int j + 1) = Some (idx ! nat (off + int j + 1))"
    using Cons.prems by (intro array_get_Some) auto
  have a2: "array_get idx (off + int j + 2) = Some (idx ! nat (off + int j + 2))"
    using Cons.prems by (intro array_get_Some) auto
  show ?case using Cons.prems by (simp add: a0 a1 a2 Cons.IH)
qed

lemma polygon_fan_segment:
  assumes "0 \<le> off" "2 \<le> n" "off + n \<le> int (length idx)"
  shows "polygon_fan (take (nat n) (drop (nat off) idx)) =
     map (\<lambda>j. (idx ! nat off, idx ! nat (off + int j + 1), idx ! nat (off + int j + 2))) [0..<nat (n - 2)]"
proof -
  have len: "length (take (nat n) (drop (nat off) idx)) = nat n"
    using assms by (simp; linarith)
  have nth: "take (nat n) (drop (nat off) idx) ! i = idx ! (nat off + i)" if "i < nat n" for i
    using that assms by simp
  have n2: "nat n - 2 = nat (n - 2)" using assms by simp
  show ?thesis
    unfolding polygon_fan_def len n2
  proof (rule map_cong [OF refl], goal_cases)
    case (1 j)
    then have j: "j + 2 < nat n" using assms by (simp; linarith)
    have e0: "nat off + 0 = nat off" by simp
    have e1: "nat (off + int j + 1) = nat off + (j + 1)" using assms by (simp; linarith)
    have e2: "nat (off + int j + 2) = nat off + (j + 2)" using assms by (simp; linarith)
    show ?case using nth [of 0] nth [of "j + 1"] nth [of "j + 2"] j
      by (simp add: e1 e2)
  qed
qed

lemma add_triangles_faces_eq:
  assumes "0 \<le> off" "\<forall>n \<in> set counts. 3 \<le> n" "off + sum_list counts \<le> int (length idx)"
    "length idx < 2 ^ 31"
  shows "add_triangles_faces counts idx off (T, L) =
     Some (T @ concat (map polygon_fan (polygons counts (drop (nat off) idx))),
           L @ fan_loops off counts)"
  using assms
proof (induction counts arbitrary: off T L)
  case Nil
  then show ?case by simp
next
  case (Cons n counts)
  have n3: "3 \<le> n" using Cons.prems by simp
  have rest: "0 \<le> sum_list counts" using Cons.prems(2)
    by (intro sum_list_nonneg) auto
  have bound: "off + n \<le> int (length idx)" using Cons.prems rest by simp
  have js: "\<forall>j \<in> set [0..<nat (n - 2)]. off + int j + 2 < int (length idx)"
    using bound n3 by auto
  have fan: "add_triangles_fan idx off [0..<nat (n - 2)] (T, L) =
     Some (T @ polygon_fan (take (nat n) (drop (nat off) idx)),
           L @ map (\<lambda>j. (off, off + int j + 1, off + int j + 2)) [0..<nat (n - 2)])"
    using add_triangles_fan_eq [OF Cons.prems(1) js Cons.prems(4)]
      polygon_fan_segment [OF Cons.prems(1) _ bound] n3 by simp
  have ok: "int_ok (off + n)" using bound Cons.prems n3 by (simp add: int_ok_def)
  have dr: "nat n + nat off = nat (off + n)"
    using Cons.prems(1) n3 by simp
  have IH: "add_triangles_faces counts idx (off + n) (T', L') =
     Some (T' @ concat (map polygon_fan (polygons counts (drop (nat (off + n)) idx))),
           L' @ fan_loops (off + n) counts)" for T' L'
    using Cons.prems n3 by (intro Cons.IH) (auto simp: add.assoc)
  show ?case by (simp add: fan ok IH dr)
qed

lemma polygons_lengths:
  assumes "\<forall>n \<in> set counts. 0 \<le> n" "sum_list counts \<le> int (length idx)"
  shows "map length (polygons counts idx) = map nat counts"
  using assms
proof (induction counts arbitrary: idx)
  case Nil
  then show ?case by simp
next
  case (Cons n counts)
  have rest: "0 \<le> sum_list counts" using Cons.prems(1) by (intro sum_list_nonneg) auto
  have "sum_list counts \<le> int (length (drop (nat n) idx))" using Cons.prems rest by simp
  then have "map length (polygons counts (drop (nat n) idx)) = map nat counts"
    using Cons.prems by (intro Cons.IH) auto
  moreover have "min (length idx) (nat n) = nat n" using Cons.prems rest by simp
  ultimately show ?case by simp
qed

lemma fan_corners:
  assumes "0 \<le> off" "\<forall>n \<in> set counts. 3 \<le> n" "off + sum_list counts \<le> int (length idx)"
  shows "list_all2 (corner_ok idx)
           (concat (map polygon_fan (polygons counts (drop (nat off) idx)))) (fan_loops off counts)"
  using assms
proof (induction counts arbitrary: off)
  case Nil
  then show ?case by simp
next
  case (Cons n counts)
  have n3: "3 \<le> n" using Cons.prems by simp
  have rest: "0 \<le> sum_list counts" using Cons.prems(2) by (intro sum_list_nonneg) auto
  have bound: "off + n \<le> int (length idx)" using Cons.prems rest by simp
  have dr: "nat n + nat off = nat (off + n)"
    using Cons.prems(1) n3 by simp
  have IH: "list_all2 (corner_ok idx)
      (concat (map polygon_fan (polygons counts (drop (nat (off + n)) idx)))) (fan_loops (off + n) counts)"
    using Cons.prems n3 by (intro Cons.IH) (auto simp: add.assoc)
  have hd: "list_all2 (corner_ok idx) (polygon_fan (take (nat n) (drop (nat off) idx)))
      (map (\<lambda>k. (off, off + int k + 1, off + int k + 2)) [0..<nat (n - 2)])"
    using n3 bound Cons.prems(1)
    by (subst polygon_fan_segment [OF Cons.prems(1) _ bound])
       (auto simp: list_all2_map1 list_all2_map2 list_all2_same corner_ok_def)
  show ?case using hd IH by (simp add: dr list_all2_appendI)
qed

lemma count_triangles_eq:
  assumes "\<forall>n \<in> set counts. 3 \<le> n" "sum_list counts < 2 ^ 31"
    "int acc + sum_list counts < 2 ^ 64"
  shows "count_triangles counts acc = Some (acc + sum_list (map (\<lambda>n. nat (n - 2)) counts))"
  using assms
proof (induction counts arbitrary: acc)
  case Nil
  then show ?case by simp
next
  case (Cons n counts)
  have n3: "3 \<le> n" using Cons.prems by simp
  have rest: "0 \<le> sum_list counts" using Cons.prems(1) by (intro sum_list_nonneg) auto
  have ok: "int_ok (n - 2)" using n3 rest Cons.prems(2) by (simp add: int_ok_def)
  have "0 \<le> int acc + (n - 2)" "int acc + (n - 2) < 2 ^ 64"
    using n3 rest Cons.prems(3) by simp_all
  then have md: "(int acc + (n - 2)) mod 2 ^ 64 = int acc + (n - 2)" by simp
  have acc': "nat (int acc + (n - 2)) = acc + nat (n - 2)" using n3 by simp
  have step: "nat ((int acc + (n - 2)) mod 2 ^ 64) = acc + nat (n - 2)"
    using md acc' by simp
  have "count_triangles (n # counts) acc =
        count_triangles counts (nat ((int acc + (n - 2)) mod 2 ^ 64))"
    using ok by simp
  also have "\<dots> = count_triangles counts (acc + nat (n - 2))"
    by (simp only: step)
  also have "\<dots> = Some (acc + nat (n - 2) + sum_list (map (\<lambda>n. nat (n - 2)) counts))"
    using Cons.prems n3 rest by (intro Cons.IH) auto
  finally show ?case by (simp add: add.assoc)
qed

text \<open>
  A face of one vertex makes the count of triangles wrap around, and the reservation
  of that many triangles fails.
\<close>

lemma add_triangles_one_vertex_face: "add_triangles (Some [1]) (Some [0]) time cd = None"
  by (simp add: add_triangles_def int_ok_def reserve_ok_def)

lemma sum_fan_le:
  assumes "\<forall>n \<in> set counts. (3::int) \<le> n"
  shows "int (sum_list (map (\<lambda>n. nat (n - 2)) counts)) \<le> sum_list counts"
  using assms by (induction counts) auto

text \<open>
  C3: for a face list in which every polygon has at least three vertices (and whose
  index array holds all the corners the counts announce and has fewer than \<open>2^31\<close>
  entries, so that no read leaves the array and no \<^verbatim>\<open>int\<close> overflows), the
  triangulation is defined; polygon \<open>i\<close> has \<open>face_counts ! i\<close> vertices and contributes that number
  minus two triangles, triangle \<open>k\<close> made of the polygon's first vertex, vertex \<open>k + 1\<close>
  and vertex \<open>k + 2\<close>; the parallel loop-index array has one triple per triangle, which
  holds the flattened corner indices of the triangle's three corners; both arrays are
  stored at the sample's time; and the quad \<open>[0, 1, 2, 3]\<close> yields the triangles
  \<open>(0, 1, 2)\<close> and \<open>(0, 2, 3)\<close> with the same two triples as loop indices.
\<close>

theorem C3_fan_triangulation:
  assumes three: "\<forall>n \<in> set face_counts. 3 \<le> n"
    and bound: "sum_list face_counts \<le> int (length face_indices)"
    and small: "length face_indices < 2 ^ 31"
  shows "\<exists>tris loops.
     add_triangles_faces face_counts face_indices 0 ([], []) = Some (tris, loops) \<and>
     add_triangles (Some face_counts) (Some face_indices) time cd =
       Some (cd\<lparr>triangles := add_data tris time (triangles cd),
                triangles_loops := add_data loops time (triangles_loops cd)\<rparr>) \<and>
     map length (polygons face_counts face_indices) = map nat face_counts \<and>
     map (\<lambda>p. length (polygon_fan p)) (polygons face_counts face_indices) =
       map (\<lambda>n. nat (n - 2)) face_counts \<and>
     tris = concat (map polygon_fan (polygons face_counts face_indices)) \<and>
     loops = fan_loops 0 face_counts \<and>
     length loops = length tris \<and>
     (\<forall>m < length tris. corner_ok face_indices (tris ! m) (loops ! m)) \<and>
     add_triangles_faces [4] [0, 1, 2, 3] 0 ([], []) =
       Some ([(0, 1, 2), (0, 2, 3)], [(0, 1, 2), (0, 2, 3)])"
proof -
  let ?T = "concat (map polygon_fan (polygons face_counts face_indices))"
  let ?L = "fan_loops 0 face_counts"
  have nonneg: "\<forall>n \<in> set face_counts. 0 \<le> n" using three by auto
  have run: "add_triangles_faces face_counts face_indices 0 ([], []) = Some (?T, ?L)"
    using add_triangles_faces_eq [of 0 face_counts face_indices "[]" "[]"] three bound small
    by simp
  have lens: "map length (polygons face_counts face_indices) = map nat face_counts"
    using nonneg bound by (rule polygons_lengths)
  have "map (\<lambda>p. length (polygon_fan p)) (polygons face_counts face_indices) =
        map (\<lambda>l. l - 2) (map length (polygons face_counts face_indices))"
    by (simp add: polygon_fan_def)
  also have "\<dots> = map (\<lambda>n. nat (n - 2)) face_counts"
    unfolding lens using nonneg by auto
  finally have fans: "map (\<lambda>p. length (polygon_fan p)) (polygons face_counts face_indices) =
        map (\<lambda>n. nat (n - 2)) face_counts" .
  have all2: "list_all2 (corner_ok face_indices) ?T ?L"
    using fan_corners [of 0 face_counts face_indices] three bound by simp
  have len: "length ?L = length ?T" using all2 by (simp add: list_all2_lengthD)
  have nth: "\<forall>m < length ?T. corner_ok face_indices (?T ! m) (?L ! m)"
    using all2 by (simp add: list_all2_conv_all_nth)
  have quad: "add_triangles_faces [4] [0, 1, 2, 3] 0 ([], []) =
       Some ([(0, 1, 2), (0, 2, 3)], [(0, 1, 2), (0, 2, 3)])"
    by (simp add: array_get_def int_ok_def upt_rec)
  let ?num = "sum_list (map (\<lambda>n. nat (n - 2)) face_counts)"
  have s31: "sum_list face_counts < 2 ^ 31" using bound small by simp
  have cnt: "count_triangles face_counts 0 = Some ?num"
    using count_triangles_eq [of face_counts 0] three s31 by simp
  have "length ?T = sum_list (map (\<lambda>p. length (polygon_fan p)) (polygons face_counts face_indices))"
    by (simp add: length_concat comp_def)
  then have lenT: "length ?T = ?num" unfolding fans .
  have "int ?num < 2 ^ 31" using sum_fan_le [OF three] s31 by simp
  then have "?num < 2 ^ 31" by (simp add: nat_less_iff flip: of_nat_less_iff)
  then have res: "reserve_ok 16 ?num" by (simp add: reserve_ok_def)
  have store: "add_triangles (Some face_counts) (Some face_indices) time cd =
       Some (cd\<lparr>triangles := add_data ?T time (triangles cd),
                triangles_loops := add_data ?L time (triangles_loops cd)\<rparr>)"
    by (simp add: add_triangles_def cnt res run lenT del: add_triangles_faces.simps)
  show ?thesis
    apply (rule exI [of _ ?T])
    apply (rule exI [of _ ?L])
    using run store lens fans len nth quad
    by simp
qed

theorem C3_fan_triangulation_witness:
  "sum_list [3, 4] \<le> int (length [0, 1, 2, 2, 1, 3, 4 :: int]) \<and>
   add_triangles_faces [3, 4] [0, 1, 2, 2, 1, 3, 4] 0 ([], []) =
     Some ([(0, 1, 2), (2, 1, 3), (2, 3, 4)], [(0, 1, 2), (3, 4, 5), (3, 5, 6)])"
proof -
  have h1: "\<forall>n \<in> set [3, 4 :: int]. 3 \<le> n" by simp
  have h2: "sum_list [3, 4] \<le> int (length [0, 1, 2, 2, 1, 3, 4 :: int])" by simp
  have h3: "length [0, 1, 2, 2, 1, 3, 4 :: int] < 2 ^ 31" by simp
  obtain tris loops where
    r: "add_triangles_faces [3, 4] [0, 1, 2, 2, 1, 3, 4] 0 ([], []) = Some (tris, loops)"
    and t: "tris = concat (map polygon_fan (polygons [3, 4] [0, 1, 2, 2, 1, 3, 4 :: int]))"
    and l: "loops = fan_loops 0 [3, 4]"
    using C3_fan_triangulation [OF h1 h2 h3] by blast
  have "tris = [(0, 1, 2), (2, 1, 3), (2, 3, 4)]"
    unfolding t by (simp add: polygon_fan_def upt_rec)
  moreover have "loops = [(0, 1, 2), (3, 4, 5), (3, 5, 6)]"
    unfolding l by (simp add: upt_rec)
  ultimately show ?thesis using r h2 by simp
qed

section \<open>Curve loading\<close>

lemma length_running_offsets: "length (running_offsets off counts) = length counts"
  by (induction counts arbitrary: off) auto

lemma running_offsets_nth:
  "i < length counts \<Longrightarrow> running_offsets off counts ! i = off + sum_list (take i counts)"
proof (induction counts arbitrary: off i)
  case Nil
  then show ?case by simp
next
  case (Cons n counts)
  then show ?case by (cases i) (auto simp: add.assoc)
qed

lemma curve_keys_loop_eq:
  assumes "0 \<le> off" "\<forall>j \<in> set js. off + int j < int (length pos)" "length pos < 2 ^ 31"
  shows "curve_keys_loop pos off js (K, R) =
     Some (K @ map (\<lambda>j. make_float3_from_yup (pos ! nat (off + int j))) js,
           R @ map (\<lambda>j. curve_radius_placeholder) js)"
  using assms
proof (induction js arbitrary: K R)
  case Nil
  then show ?case by simp
next
  case (Cons j js)
  have a: "array_get pos (off + int j) = Some (pos ! nat (off + int j))"
    using Cons.prems by (intro array_get_Some) auto
  show ?case using Cons.prems by (simp add: a Cons.IH)
qed

lemma segment_map:
  assumes "0 \<le> off" "0 \<le> n" "off + n \<le> int (length pos)"
  shows "map (\<lambda>j. f (pos ! nat (off + int j))) [0..<nat n] = map f (take (nat n) (drop (nat off) pos))"
proof (rule nth_equalityI)
  show "length (map (\<lambda>j. f (pos ! nat (off + int j))) [0..<nat n]) =
        length (map f (take (nat n) (drop (nat off) pos)))"
    using assms by (simp; linarith)
next
  fix i assume "i < length (map (\<lambda>j. f (pos ! nat (off + int j))) [0..<nat n])"
  then have i: "i < nat n" by simp
  have "nat (off + int i) = nat off + i" using assms by (simp; linarith)
  then show "map (\<lambda>j. f (pos ! nat (off + int j))) [0..<nat n] ! i =
        map f (take (nat n) (drop (nat off) pos)) ! i"
    using i assms by simp
qed

lemma curves_loop_eq:
  assumes "0 \<le> off" "\<forall>n \<in> set counts. 0 \<le> n" "off + sum_list counts \<le> int (length pos)"
    "length pos < 2 ^ 31"
  shows "curves_loop counts pos off (K, R, F, S) =
     Some (K @ map make_float3_from_yup (take (nat (sum_list counts)) (drop (nat off) pos)),
           R @ replicate (nat (sum_list counts)) curve_radius_placeholder,
           F @ running_offsets off counts,
           S @ replicate (length counts) 0)"
  using assms
proof (induction counts arbitrary: off K R F S)
  case Nil
  then show ?case by simp
next
  case (Cons n counts)
  have n0: "0 \<le> n" using Cons.prems by simp
  have rest: "0 \<le> sum_list counts" using Cons.prems(2) by (intro sum_list_nonneg) auto
  have bound: "off + n \<le> int (length pos)" using Cons.prems rest by simp
  have js: "\<forall>j \<in> set [0..<nat n]. off + int j < int (length pos)"
    using bound n0 by auto
  have inner: "curve_keys_loop pos off [0..<nat n] (K, R) =
     Some (K @ map make_float3_from_yup (take (nat n) (drop (nat off) pos)),
           R @ replicate (nat n) curve_radius_placeholder)"
    using curve_keys_loop_eq [OF Cons.prems(1) js Cons.prems(4)]
      segment_map [OF Cons.prems(1) n0 bound, of make_float3_from_yup]
    by (simp add: map_replicate_const)
  have ok: "int_ok (off + n)" using bound Cons.prems n0 by (simp add: int_ok_def)
  have IH: "curves_loop counts pos (off + n) (K', R', F', S') =
     Some (K' @ map make_float3_from_yup (take (nat (sum_list counts)) (drop (nat (off + n)) pos)),
           R' @ replicate (nat (sum_list counts)) curve_radius_placeholder,
           F' @ running_offsets (off + n) counts,
           S' @ replicate (length counts) 0)" for K' R' F' S'
    using Cons.prems n0 by (intro Cons.IH) (auto simp: add.assoc)
  have sum: "nat (n + sum_list counts) = nat n + nat (sum_list counts)"
    using n0 rest by (simp add: nat_add_distrib)
  have dr: "nat n + nat off = nat (off + n)" using Cons.prems(1) n0 by simp
  have tk: "take (nat n + nat (sum_list counts)) (drop (nat off) pos) =
      take (nat n) (drop (nat off) pos) @ take (nat (sum_list counts)) (drop (nat (off + n)) pos)"
    by (simp add: take_add dr)
  show ?case
    by (simp add: inner ok IH sum tk replicate_add replicate_append_same)
qed

lemma sum_list_take_le:
  assumes "\<forall>n \<in> set counts. (0::int) \<le> n"
  shows "sum_list (take k counts) \<le> sum_list counts"
proof -
  have "sum_list counts = sum_list (take k counts) + sum_list (drop k counts)"
    by (metis append_take_drop_id sum_list_append)
  moreover have "0 \<le> sum_list (drop k counts)"
    using assms by (intro sum_list_nonneg) (auto dest: in_set_dropD)
  ultimately show ?thesis by simp
qed

lemma sum_list_take_nonneg:
  assumes "\<forall>n \<in> set counts. (0::int) \<le> n"
  shows "0 \<le> sum_list (take k counts)"
  using assms by (intro sum_list_nonneg) (auto dest: in_set_takeD)

text \<open>
  C7: for a curve sample whose vertex counts are not negative and whose position array
  holds all the keys the counts announce (and has fewer than \<open>2^31\<close> entries), the
  loading is defined and the four arrays
  are stored at the sample's time; there is one first-key offset per curve, the sum of
  the vertex counts of the curves before it; the keys of curve \<open>i\<close> are the converted
  positions at that offset, one for each of its \<open>counts ! i\<close> vertices; every key
  has the radius \<^verbatim>\<open>0.01f\<close>; and there is one shader index 0 per curve.
\<close>

theorem C7_curve_loading:
  assumes nonneg: "\<forall>n \<in> set counts. 0 \<le> n"
    and bound: "sum_list counts \<le> int (length positions)"
    and small: "length positions < 2 ^ 31"
  shows "\<exists>ckeys cradius cfirst_key cshader.
     curves_loop counts positions 0 ([], [], [], []) = Some (ckeys, cradius, cfirst_key, cshader) \<and>
     load_curves_sample \<lparr>cs_time = time, cs_num_vertices = counts, cs_positions = positions\<rparr> cd =
       Some (cd\<lparr>curve_keys := add_data ckeys time (curve_keys cd),
                curve_radius := add_data cradius time (curve_radius cd),
                curve_first_key := add_data cfirst_key time (curve_first_key cd),
                curve_shader := add_data cshader time (curve_shader cd)\<rparr>) \<and>
     length cfirst_key = length counts \<and>
     (\<forall>i < length counts. cfirst_key ! i = sum_list (take i counts)) \<and>
     length ckeys = nat (sum_list counts) \<and>
     (\<forall>i < length counts. \<forall>j < nat (counts ! i).
        ckeys ! (nat (cfirst_key ! i) + j) = make_float3_from_yup (positions ! (nat (cfirst_key ! i) + j))) \<and>
     ckeys = map make_float3_from_yup (take (nat (sum_list counts)) positions) \<and>
     cradius = replicate (length ckeys) curve_radius_placeholder \<and>
     cshader = replicate (length counts) 0"
proof -
  let ?K = "map make_float3_from_yup (take (nat (sum_list counts)) positions)"
  let ?F = "running_offsets 0 counts"
  have run: "curves_loop counts positions 0 ([], [], [], []) =
      Some (?K, replicate (nat (sum_list counts)) curve_radius_placeholder, ?F,
            replicate (length counts) 0)"
    using curves_loop_eq [of 0 counts positions "[]" "[]" "[]" "[]"] nonneg bound small by simp
  have lenK: "length ?K = nat (sum_list counts)" using bound by (simp; linarith)
  have first: "\<forall>i < length counts. ?F ! i = sum_list (take i counts)"
    by (simp add: running_offsets_nth)
  have lock: "?K ! (nat (?F ! i) + j) = make_float3_from_yup (positions ! (nat (?F ! i) + j))"
    if i: "i < length counts" and j: "j < nat (counts ! i)" for i j
  proof -
    have Fi: "?F ! i = sum_list (take i counts)" using i by (simp add: running_offsets_nth)
    have "sum_list (take (Suc i) counts) \<le> sum_list counts" using nonneg by (rule sum_list_take_le)
    then have le: "sum_list (take i counts) + counts ! i \<le> sum_list counts"
      using i by (simp add: take_Suc_conv_app_nth)
    have nn: "0 \<le> sum_list (take i counts)" using nonneg by (rule sum_list_take_nonneg)
    have "nat (sum_list (take i counts)) + j < nat (sum_list counts)"
      using le nn j by linarith
    then show ?thesis using lenK bound unfolding Fi by simp
  qed
  have cap: "\<not> length positions < length ?K" using bound by simp
  have store: "load_curves_sample \<lparr>cs_time = time, cs_num_vertices = counts, cs_positions = positions\<rparr> cd =
       Some (cd\<lparr>curve_keys := add_data ?K time (curve_keys cd),
                curve_radius := add_data (replicate (nat (sum_list counts)) curve_radius_placeholder)
                                  time (curve_radius cd),
                curve_first_key := add_data ?F time (curve_first_key cd),
                curve_shader := add_data (replicate (length counts) 0) time (curve_shader cd)\<rparr>)"
    using run cap by (simp add: load_curves_sample_def del: curves_loop.simps)
  show ?thesis
    apply (rule exI [of _ ?K])
    apply (rule exI [of _ "replicate (nat (sum_list counts)) curve_radius_placeholder"])
    apply (rule exI [of _ ?F])
    apply (rule exI [of _ "replicate (length counts) 0"])
    using run store lenK first lock
    by (simp add: length_running_offsets)
qed

theorem C7_curve_loading_witness:
  "sum_list [2, 1] \<le> int (length [Vec3 1 2 3, Vec3 4 5 6, Vec3 7 8 (9::rat)]) \<and>
   curves_loop [2, 1] [Vec3 1 2 3, Vec3 4 5 6, Vec3 7 8 9] 0 ([], [], [], []) =
     Some ([Vec3 1 (- 3) 2, Vec3 4 (- 6) 5, Vec3 7 (- 9) 8],
           [curve_radius_placeholder, curve_radius_placeholder, curve_radius_placeholder],
           [0, 2], [0, 0])"
proof -
  let ?pos = "[Vec3 1 2 3, Vec3 4 5 6, Vec3 7 8 (9::rat)]"
  have h1: "\<forall>n \<in> set [2, 1 :: int]. 0 \<le> n" by simp
  have h2: "sum_list [2, 1] \<le> int (length ?pos)" by simp
  have h3: "length ?pos < 2 ^ 31" by simp
  obtain ckeys cradius cfirst_key cshader where
    r: "curves_loop [2, 1] ?pos 0 ([], [], [], []) = Some (ckeys, cradius, cfirst_key, cshader)"
    and k: "ckeys = map make_float3_from_yup (take (nat (sum_list [2, 1])) ?pos)"
    and ra: "cradius = replicate (length ckeys) curve_radius_placeholder"
    and sh: "cshader = replicate (length [2, 1 :: int]) 0"
    and fl: "length cfirst_key = length [2, 1 :: int]"
    and f: "\<forall>i < length [2, 1 :: int]. cfirst_key ! i = sum_list (take i [2, 1])"
    using C7_curve_loading [OF h1 h2 h3, of 0 cached_data_clear] by blast
  have k': "ckeys = [Vec3 1 (- 3) 2, Vec3 4 (- 6) 5, Vec3 7 (- 9) 8]"
    unfolding k by simp
  have f0: "cfirst_key ! 0 = 0" using f by simp
  have f1: "cfirst_key ! 1 = 2" using f by (simp add: numeral_2_eq_2)
  have f': "cfirst_key = [0, 2]"
    using fl f0 f1 by (intro nth_equalityI) (auto simp: less_Suc_eq numeral_2_eq_2)
  have ra': "cradius = [curve_radius_placeholder, curve_radius_placeholder, curve_radius_placeholder]"
    unfolding ra k' by (simp add: numeral_3_eq_3)
  have sh': "cshader = [0, 0]" unfolding sh by (simp add: numeral_2_eq_2)
  show ?thesis using r k' f' ra' sh' h2 by simp
qed

section \<open>Transform finalization\<close>

lemma setup_transform_cache_empty:
  "xform_samples obj = [] \<Longrightarrow>
   setup_transform_cache ops obj =
     Some (obj\<lparr>cached_data :=
                 (cached_data obj)\<lparr>transforms :=
                    add_data transform_identity 0 (transforms (cached_data obj))\<rparr>\<rparr>)"
  by (simp add: setup_transform_cache_def Let_def)

text \<open>
  C2: the claim is that without transform samples the cache gets one identity transform
  at time zero, that samples whose matrices all equal the first sample's matrix
  collapse to one entry at time zero, and that otherwise every sample is kept under
  its own time. The first part holds (\<open>setup_transform_cache_empty\<close>). For the second,
  the source compares every matrix with \<^verbatim>\<open>xform_samples.begin()->first\<close>, the time of
  the first sample turned into a matrix, where the first sample's matrix is
  \<^verbatim>\<open>begin()->second\<close>: two identical samples, the identity matrix at the times 0 and 1,
  differ from the matrix filled with 0, count as animated and are both converted and
  kept, under the times 0 and 1.
\<close>

theorem C2_identical_samples_not_collapsed:
  "setup_transform_cache ops
      \<lparr>xform_samples = [(0, M44d_identity), (1, M44d_identity)],
       cached_data = cached_data_clear, data_loaded = False\<rparr>
   = (case make_transform ops M44d_identity of
        None \<Rightarrow> None
      | Some tfm \<Rightarrow>
          Some \<lparr>xform_samples = [(0, M44d_identity), (1, M44d_identity)],
                cached_data = cached_data_clear\<lparr>transforms := [(0, tfm), (1, tfm)]\<rparr>,
                data_loaded = False\<rparr>)"
  by (simp add: setup_transform_cache_def cached_data_clear_def add_data_def
        M44d_fill_def M44d_identity_def split: option.splits)

lemma keys_Cons: "keys (p # xs) = insert (fst p) (keys xs)"
  by (simp add: keys_def)

lemma add_transforms_None:
  "add_transforms ops xs store = None \<longleftrightarrow> (\<exists>pair \<in> set xs. make_transform ops (snd pair) = None)"
  by (induction xs arbitrary: store) (auto split: option.splits)

lemma add_transforms_Some:
  assumes "add_transforms ops xs store = Some store'" "distinct (map fst xs)"
  shows "keys store' = keys xs \<union> keys store \<and>
         (\<forall>t. t \<notin> keys xs \<longrightarrow> map_of store' t = map_of store t) \<and>
         (\<forall>pair \<in> set xs. \<exists>tfm. make_transform ops (snd pair) = Some tfm \<and>
                                  map_of store' (fst pair) = Some tfm)"
  using assms
proof (induction xs arbitrary: store)
  case Nil
  then show ?case by (simp add: keys_def)
next
  case (Cons p xs)
  from Cons.prems(1) obtain tfm where
    tf: "make_transform ops (snd p) = Some tfm" and
    r: "add_transforms ops xs (add_data tfm (fst p) store) = Some store'"
    by (auto split: option.splits)
  have d: "distinct (map fst xs)" and nin: "fst p \<notin> keys xs"
    using Cons.prems(2) by (simp_all add: keys_def)
  note IH = Cons.IH [OF r d]
  have k: "keys store' = keys (p # xs) \<union> keys store"
    using IH by (auto simp: add_data_def keys_map_assign keys_Cons)
  have frame: "\<forall>t. t \<notin> keys (p # xs) \<longrightarrow> map_of store' t = map_of store t"
    using IH by (auto simp: add_data_def map_of_map_assign keys_Cons)
  have here: "map_of store' (fst p) = Some tfm"
    using IH nin by (simp add: add_data_def map_of_map_assign)
  have "\<forall>pair \<in> set (p # xs). \<exists>tfm. make_transform ops (snd pair) = Some tfm \<and>
                                  map_of store' (fst pair) = Some tfm"
    using IH here tf by auto
  then show ?case using k frame by blast
qed

text \<open>
  What the source computes when it starts from an empty transform channel: without
  samples, one identity transform at time zero; with samples whose matrices all equal
  the matrix filled with the first sample's time, the conversion of that filled matrix,
  stored as the one entry at time zero if the conversion returns; and in every other
  case the conversion of every sample's matrix, which ends in an exception exactly when
  one of the conversions does and otherwise leaves one entry per sample under the
  sample's own time, the converted form of the sample's matrix.
\<close>

theorem setup_transform_cache_cases:
  assumes inv: "map_inv (xform_samples obj)" and empty: "transforms (cached_data obj) = []"
  shows "(xform_samples obj = [] \<longrightarrow>
            setup_transform_cache ops obj =
              Some (obj\<lparr>cached_data := (cached_data obj)\<lparr>transforms := [(0, transform_identity)]\<rparr>\<rparr>)) \<and>
         (xform_samples obj \<noteq> [] \<and>
          (\<forall>pair \<in> set (xform_samples obj). snd pair = M44d_fill (fst (hd (xform_samples obj)))) \<longrightarrow>
            setup_transform_cache ops obj =
              (case make_transform ops (M44d_fill (fst (hd (xform_samples obj)))) of
                 None \<Rightarrow> None
               | Some tfm \<Rightarrow>
                   Some (obj\<lparr>cached_data := (cached_data obj)\<lparr>transforms := [(0, tfm)]\<rparr>\<rparr>))) \<and>
         (xform_samples obj \<noteq> [] \<and>
          (\<exists>pair \<in> set (xform_samples obj). snd pair \<noteq> M44d_fill (fst (hd (xform_samples obj)))) \<longrightarrow>
            (setup_transform_cache ops obj = None \<longleftrightarrow>
               (\<exists>pair \<in> set (xform_samples obj). make_transform ops (snd pair) = None)) \<and>
            (\<forall>obj'. setup_transform_cache ops obj = Some obj' \<longrightarrow>
               keys (transforms (cached_data obj')) = keys (xform_samples obj) \<and>
               (\<forall>pair \<in> set (xform_samples obj). \<exists>tfm.
                  make_transform ops (snd pair) = Some tfm \<and>
                  map_of (transforms (cached_data obj')) (fst pair) = Some tfm)))"
proof (intro conjI impI allI)
  assume "xform_samples obj = []"
  then show "setup_transform_cache ops obj =
      Some (obj\<lparr>cached_data := (cached_data obj)\<lparr>transforms := [(0, transform_identity)]\<rparr>\<rparr>)"
    using empty by (simp add: setup_transform_cache_def Let_def add_data_def)
next
  assume h: "xform_samples obj \<noteq> [] \<and>
          (\<forall>pair \<in> set (xform_samples obj). snd pair = M44d_fill (fst (hd (xform_samples obj))))"
  then have "\<not> list_ex (\<lambda>pair. snd pair \<noteq> M44d_fill (fst (hd (xform_samples obj)))) (xform_samples obj)"
    by (simp add: list_ex_iff)
  then show "setup_transform_cache ops obj =
              (case make_transform ops (M44d_fill (fst (hd (xform_samples obj)))) of
                 None \<Rightarrow> None
               | Some tfm \<Rightarrow>
                   Some (obj\<lparr>cached_data := (cached_data obj)\<lparr>transforms := [(0, tfm)]\<rparr>\<rparr>))"
    using h empty by (simp add: setup_transform_cache_def Let_def add_data_def split: option.splits)
next
  assume h: "xform_samples obj \<noteq> [] \<and>
          (\<exists>pair \<in> set (xform_samples obj). snd pair \<noteq> M44d_fill (fst (hd (xform_samples obj))))"
  then have ex: "list_ex (\<lambda>pair. snd pair \<noteq> M44d_fill (fst (hd (xform_samples obj)))) (xform_samples obj)"
    by (simp add: list_ex_iff)
  have eq: "setup_transform_cache ops obj =
      (case add_transforms ops (xform_samples obj) [] of
         None \<Rightarrow> None
       | Some store \<Rightarrow> Some (obj\<lparr>cached_data := (cached_data obj)\<lparr>transforms := store\<rparr>\<rparr>))"
    using h ex empty by (simp add: setup_transform_cache_def Let_def)
  show "setup_transform_cache ops obj = None \<longleftrightarrow>
               (\<exists>pair \<in> set (xform_samples obj). make_transform ops (snd pair) = None)"
    unfolding eq add_transforms_None [of ops "xform_samples obj" "[]", symmetric]
    by (simp split: option.splits)
next
  fix obj'
  assume h: "xform_samples obj \<noteq> [] \<and>
          (\<exists>pair \<in> set (xform_samples obj). snd pair \<noteq> M44d_fill (fst (hd (xform_samples obj))))"
    and r: "setup_transform_cache ops obj = Some obj'"
  then have ex: "list_ex (\<lambda>pair. snd pair \<noteq> M44d_fill (fst (hd (xform_samples obj)))) (xform_samples obj)"
    by (simp add: list_ex_iff)
  have eq: "setup_transform_cache ops obj =
      (case add_transforms ops (xform_samples obj) [] of
         None \<Rightarrow> None
       | Some store \<Rightarrow> Some (obj\<lparr>cached_data := (cached_data obj)\<lparr>transforms := store\<rparr>\<rparr>))"
    using h ex empty by (simp add: setup_transform_cache_def Let_def)
  from r obtain store where
    st: "add_transforms ops (xform_samples obj) [] = Some store" and
    o: "obj' = obj\<lparr>cached_data := (cached_data obj)\<lparr>transforms := store\<rparr>\<rparr>"
    unfolding eq by (auto split: option.splits)
  have d: "distinct (map fst (xform_samples obj))" using inv by (rule map_inv_distinct)
  note facts = add_transforms_Some [OF st d]
  have ts: "transforms (cached_data obj') = store" unfolding o by simp
  show "keys (transforms (cached_data obj')) = keys (xform_samples obj)"
    unfolding ts using facts by (simp add: keys_def)
  show "\<forall>pair \<in> set (xform_samples obj). \<exists>tfm.
                  make_transform ops (snd pair) = Some tfm \<and>
                  map_of (transforms (cached_data obj')) (fst pair) = Some tfm"
    unfolding ts using facts by simp
qed

theorem setup_transform_cache_cases_witness:
  "\<forall>ops.
     setup_transform_cache ops
        \<lparr>xform_samples = [], cached_data = cached_data_clear, data_loaded = False\<rparr>
       = Some \<lparr>xform_samples = [],
               cached_data = cached_data_clear\<lparr>transforms := [(0, transform_identity)]\<rparr>,
               data_loaded = False\<rparr> \<and>
     setup_transform_cache (ops\<lparr>extractSHRT := \<lambda>m. None\<rparr>)
        \<lparr>xform_samples = [(0, M44d_fill 0), (1, M44d_fill 0)],
         cached_data = cached_data_clear, data_loaded = False\<rparr> = None \<and>
     setup_transform_cache (ops\<lparr>extractSHRT := \<lambda>m. None\<rparr>)
        \<lparr>xform_samples = [(0, M44d_identity), (1, M44d_identity)],
         cached_data = cached_data_clear, data_loaded = False\<rparr> = None"
proof
  fix ops :: "'a numerics"
  let ?thr = "ops\<lparr>extractSHRT := \<lambda>m. None\<rparr>"
  let ?o1 = "\<lparr>xform_samples = [], cached_data = cached_data_clear, data_loaded = False\<rparr>"
  let ?o2 = "\<lparr>xform_samples = [(0, M44d_fill 0), (1, M44d_fill 0)],
         cached_data = cached_data_clear, data_loaded = False\<rparr>"
  let ?o3 = "\<lparr>xform_samples = [(0, M44d_identity), (1, M44d_identity)],
         cached_data = cached_data_clear, data_loaded = False\<rparr>"
  have i1: "map_inv (xform_samples ?o1)" and i2: "map_inv (xform_samples ?o2)"
    and i3: "map_inv (xform_samples ?o3)" by (simp_all add: map_inv_def)
  have e1: "transforms (cached_data ?o1) = []" and e2: "transforms (cached_data ?o2) = []"
    and e3: "transforms (cached_data ?o3) = []" by (simp_all add: cached_data_clear_def)
  have thr: "\<And>m. make_transform ?thr m = None"
    by (simp add: make_transform_def convert_yup_zup_def)
  have a: "setup_transform_cache ops ?o1 =
      Some \<lparr>xform_samples = [],
               cached_data = cached_data_clear\<lparr>transforms := [(0, transform_identity)]\<rparr>,
               data_loaded = False\<rparr>"
    using setup_transform_cache_cases [OF i1 e1, of ops] by simp
  have b: "setup_transform_cache ?thr ?o2 = None"
    using setup_transform_cache_cases [OF i2 e2, of ?thr] thr by simp
  have "M44d_identity \<noteq> M44d_fill 0" by (simp add: M44d_fill_def M44d_identity_def)
  then have c: "setup_transform_cache ?thr ?o3 = None"
    using setup_transform_cache_cases [OF i3 e3, of ?thr] thr by auto
  show "setup_transform_cache ops ?o1 =
      Some \<lparr>xform_samples = [],
               cached_data = cached_data_clear\<lparr>transforms := [(0, transform_identity)]\<rparr>,
               data_loaded = False\<rparr> \<and>
     setup_transform_cache ?thr ?o2 = None \<and> setup_transform_cache ?thr ?o3 = None"
    using a b c by simp
qed

section \<open>Opening the archive\<close>












section \<open>Cancellation of a load\<close>

lemma length_add_data: "length store \<le> m \<Longrightarrow> length (add_data v t store) \<le> Suc m"
  unfolding add_data_def using length_map_assign [of t v store] by simp

lemma channel_sizes_mono:
  "\<forall>s \<in> set (channel_sizes cd). s \<le> m \<Longrightarrow> m \<le> m' \<Longrightarrow> \<forall>s \<in> set (channel_sizes cd). s \<le> m'"
  by auto

lemma load_curves_sample_sizes:
  assumes "load_curves_sample sample cd = Some cd'" "\<forall>s \<in> set (channel_sizes cd). s \<le> m"
  shows "\<forall>s \<in> set (channel_sizes cd'). s \<le> Suc m"
  using assms
  by (auto simp: load_curves_sample_def channel_sizes_def length_add_data le_SucI
      split: option.splits prod.splits if_splits)

lemma load_curves_loop_sizes:
  assumes "load_curves_loop cancel i xs cd = Some (b, cd')" "\<forall>s \<in> set (channel_sizes cd). s \<le> m"
  shows "\<forall>s \<in> set (channel_sizes cd'). s \<le> m + length xs"
  using assms
proof (induction xs arbitrary: i cd m)
  case Nil
  then show ?case by simp
next
  case (Cons x xs)
  show ?case
  proof (cases "cancel i")
    case True
    then have "cd' = cd" using Cons.prems(1) by simp
    then show ?thesis using Cons.prems(2) by auto
  next
    case False
    then obtain cd1 where s: "load_curves_sample x cd = Some cd1"
      and r: "load_curves_loop cancel (Suc i) xs cd1 = Some (b, cd')"
      using Cons.prems(1) by (auto split: option.splits)
    have "\<forall>s \<in> set (channel_sizes cd1). s \<le> Suc m"
      using s Cons.prems(2) by (rule load_curves_sample_sizes)
    from Cons.IH [OF r this] show ?thesis by simp
  qed
qed

lemma load_curves_loop_cancel:
  assumes "k < length xs" "cancel (i + k)" "\<forall>j < k. \<not> cancel (i + j)"
    "load_curves_loop (\<lambda>i. False) i' (take k xs) cd0 = Some (b, cd)"
  shows "load_curves_loop cancel i xs cd0 = Some (True, cd)"
  using assms
proof (induction xs arbitrary: k i i' cd0)
  case Nil
  then show ?case by simp
next
  case (Cons x xs)
  show ?case
  proof (cases k)
    case 0
    then show ?thesis using Cons.prems by simp
  next
    case (Suc k')
    have nc: "\<not> cancel i" using Cons.prems(3) Suc by (metis add.right_neutral zero_less_Suc)
    obtain cd1 where s: "load_curves_sample x cd0 = Some cd1"
      and r: "load_curves_loop (\<lambda>i. False) (Suc i') (take k' xs) cd1 = Some (b, cd)"
      using Cons.prems(4) Suc by (auto split: option.splits)
    have "load_curves_loop cancel (Suc i) xs cd1 = Some (True, cd)"
    proof (rule Cons.IH [OF _ _ _ r])
      show "k' < length xs" using Cons.prems(1) Suc by simp
      show "cancel (Suc i + k')" using Cons.prems(2) Suc by simp
      show "\<forall>j < k'. \<not> cancel (Suc i + j)" using Cons.prems(3) Suc by auto
    qed
    then show ?thesis using nc s by simp
  qed
qed

lemma add_attribute_bounded:
  assumes "\<forall>a \<in> set attrs. length (attr_data a) \<le> f (attr_name a)"
  shows "\<forall>a \<in> set (add_attribute name attrs). length (attr_data a) \<le> f (attr_name a)"
  using assms by (auto simp: add_attribute_def)

lemma attribute_add_data_bounded:
  assumes "\<forall>a \<in> set attrs. length (attr_data a) \<le> f (attr_name a)"
  shows "\<forall>a \<in> set (attribute_add_data name d t attrs).
           length (attr_data a) \<le> (f(name := Suc (f name))) (attr_name a)"
  using assms
proof (induction attrs)
  case Nil
  then show ?case by simp
next
  case (Cons a attrs)
  then show ?case by (auto simp: length_add_data le_SucI)
qed

lemma read_attribute_fold:
  "read_attribute ps index name cd =
     fold (read_prop index name) ps (cd\<lparr>attributes := add_attribute name (attributes cd)\<rparr>)"
  by (simp add: read_attribute_def)

lemma read_prop_other: "fst prop \<noteq> name \<Longrightarrow> read_prop index name prop c = c"
  by (simp add: read_prop_def)

lemma fold_read_prop_none:
  "name \<notin> fst ` set ps \<Longrightarrow> fold (read_prop index name) ps c = c"
  by (induction ps arbitrary: c) (auto simp: read_prop_other)

lemma read_prop_attrs: "\<exists>A. read_prop index name prop c = c\<lparr>attributes := A\<rparr>"
proof (cases "read_prop index name prop c = c")
  case True
  then have "read_prop index name prop c = c\<lparr>attributes := attributes c\<rparr>" by simp
  then show ?thesis by blast
next
  case False
  then show ?thesis by (auto simp: read_prop_def split: option.splits if_splits)
qed

lemma read_prop_bounded:
  assumes "\<forall>a \<in> set (attributes c). length (attr_data a) \<le> f (attr_name a)"
  shows "\<forall>a \<in> set (attributes (read_prop index name prop c)).
           length (attr_data a) \<le> (f(name := Suc (f name))) (attr_name a)"
proof (cases "fst prop \<noteq> name \<or> snd prop index c = None")
  case True
  then have "read_prop index name prop c = c" by (auto simp: read_prop_def)
  then show ?thesis using assms by (auto simp: le_SucI)
next
  case False
  then obtain d t where "snd prop index c = Some (d, t)" and "fst prop = name" by auto
  then have "attributes (read_prop index name prop c) = attribute_add_data name d t (attributes c)"
    by (simp add: read_prop_def)
  then show ?thesis using attribute_add_data_bounded [OF assms, of name d t] by simp
qed

lemma fold_read_prop_bounded:
  assumes "distinct (map fst ps)"
    "\<forall>a \<in> set (attributes c). length (attr_data a) \<le> f (attr_name a)"
  shows "\<forall>a \<in> set (attributes (fold (read_prop index name) ps c)).
           length (attr_data a) \<le> (f(name := Suc (f name))) (attr_name a)"
  using assms
proof (induction ps arbitrary: c)
  case Nil
  then show ?case by (auto simp: le_SucI)
next
  case (Cons p ps)
  show ?case
  proof (cases "fst p = name")
    case True
    then have "name \<notin> fst ` set ps" using Cons.prems(1) by auto
    then have "fold (read_prop index name) (p # ps) c = read_prop index name p c"
      by (simp add: fold_read_prop_none)
    then show ?thesis using read_prop_bounded [OF Cons.prems(2), of index name p] by simp
  next
    case False
    then have "fold (read_prop index name) (p # ps) c = fold (read_prop index name) ps c"
      by (simp add: read_prop_other)
    moreover have "distinct (map fst ps)" using Cons.prems(1) by simp
    ultimately show ?thesis using Cons.IH Cons.prems(2) by simp
  qed
qed

lemma fold_read_prop_attrs: "\<exists>A. fold (read_prop index name) ps c = c\<lparr>attributes := A\<rparr>"
proof (induction ps arbitrary: c)
  case Nil
  have "c = c\<lparr>attributes := attributes c\<rparr>" by simp
  then show ?case by (metis fold_simps(1))
next
  case (Cons p ps)
  obtain A where a: "read_prop index name p c = c\<lparr>attributes := A\<rparr>"
    using read_prop_attrs by blast
  obtain B where "fold (read_prop index name) ps (c\<lparr>attributes := A\<rparr>) = c\<lparr>attributes := A\<rparr>\<lparr>attributes := B\<rparr>"
    using Cons.IH by blast
  then have "fold (read_prop index name) (p # ps) c = c\<lparr>attributes := B\<rparr>"
    using a by simp
  then show ?case by blast
qed

lemma read_attribute_attrs: "\<exists>A. read_attribute ps index name cd = cd\<lparr>attributes := A\<rparr>"
proof -
  obtain A where "fold (read_prop index name) ps (cd\<lparr>attributes := add_attribute name (attributes cd)\<rparr>)
      = cd\<lparr>attributes := add_attribute name (attributes cd)\<rparr>\<lparr>attributes := A\<rparr>"
    using fold_read_prop_attrs by blast
  then have "read_attribute ps index name cd = cd\<lparr>attributes := A\<rparr>"
    by (simp add: read_attribute_fold)
  then show ?thesis by blast
qed

lemma read_attribute_bounded:
  assumes "distinct (map fst ps)"
    "\<forall>a \<in> set (attributes cd). length (attr_data a) \<le> f (attr_name a)"
  shows "\<forall>a \<in> set (attributes (read_attribute ps index name cd)).
           length (attr_data a) \<le> (f(name := Suc (f name))) (attr_name a)"
  unfolding read_attribute_fold
  by (rule fold_read_prop_bounded [OF assms(1)])
     (use assms(2) in \<open>simp add: add_attribute_bounded\<close>)

lemma fold_read_attribute_attrs:
  "\<exists>A. fold (read_attribute ps index) names cd = cd\<lparr>attributes := A\<rparr>"
proof (induction names arbitrary: cd)
  case Nil
  have "cd = cd\<lparr>attributes := attributes cd\<rparr>" by simp
  then show ?case by (metis fold_simps(1))
next
  case (Cons n names)
  obtain A where a: "read_attribute ps index n cd = cd\<lparr>attributes := A\<rparr>"
    using read_attribute_attrs by blast
  obtain B where "fold (read_attribute ps index) names (cd\<lparr>attributes := A\<rparr>) = cd\<lparr>attributes := A\<rparr>\<lparr>attributes := B\<rparr>"
    using Cons.IH by blast
  then have "fold (read_attribute ps index) (n # names) cd = cd\<lparr>attributes := B\<rparr>"
    using a by simp
  then show ?case by blast
qed

lemma fold_read_attribute_bounded:
  assumes "distinct (map fst ps)" "distinct names"
    "\<forall>a \<in> set (attributes cd). length (attr_data a) \<le> f (attr_name a)"
  shows "\<forall>a \<in> set (attributes (fold (read_attribute ps index) names cd)).
           length (attr_data a) \<le> (if attr_name a \<in> set names then Suc (f (attr_name a)) else f (attr_name a))"
  using assms(2,3)
proof (induction names arbitrary: cd f)
  case Nil
  then show ?case by simp
next
  case (Cons n names)
  let ?f = "f(n := Suc (f n))"
  have b: "\<forall>a \<in> set (attributes (read_attribute ps index n cd)). length (attr_data a) \<le> ?f (attr_name a)"
    using assms(1) Cons.prems(2) by (rule read_attribute_bounded)
  have d: "distinct names" and nn: "n \<notin> set names" using Cons.prems(1) by simp_all
  have "\<forall>a \<in> set (attributes (fold (read_attribute ps index) names (read_attribute ps index n cd))).
           length (attr_data a) \<le> (if attr_name a \<in> set names then Suc (?f (attr_name a)) else ?f (attr_name a))"
    using d b by (rule Cons.IH)
  then show ?case using nn by (auto split: if_splits)
qed

lemma load_mesh_sample_sizes:
  assumes "load_mesh_sample names ps i sample cd = Some cd'"
    "distinct (map fst ps)" "distinct names"
    "\<forall>s \<in> set (channel_sizes cd). s \<le> m"
  shows "\<forall>s \<in> set (channel_sizes cd'). s \<le> Suc m"
proof -
  let ?cd1 = "add_positions (ms_positions sample) (ms_time sample) cd"
  obtain cd2 where t: "add_triangles (ms_face_counts sample) (ms_face_indices sample) (ms_time sample) ?cd1 = Some cd2"
    and r: "cd' = fold (read_attribute ps i) names cd2"
    using assms(1) by (auto simp: load_mesh_sample_def split: option.splits)
  have b1: "\<forall>s \<in> set (channel_sizes ?cd1). s \<le> Suc m"
    using assms(4) by (auto simp: add_positions_def channel_sizes_def length_add_data le_SucI split: option.splits)
  have v1: "length (triangles ?cd1) \<le> m" "length (triangles_loops ?cd1) \<le> m"
    "\<forall>a \<in> set (attributes ?cd1). length (attr_data a) \<le> m"
    using assms(4) by (auto simp: add_positions_def channel_sizes_def split: option.splits)
  have b2: "\<forall>s \<in> set (channel_sizes cd2). s \<le> Suc m"
    using t b1 v1(1,2)
    by (auto simp: add_triangles_def channel_sizes_def length_add_data
        split: option.splits prod.splits if_splits)
  have a2: "\<forall>a \<in> set (attributes cd2). length (attr_data a) \<le> (\<lambda>n. m) (attr_name a)"
    using t v1(3) by (auto simp: add_triangles_def split: option.splits prod.splits if_splits)
  obtain A where A: "cd' = cd2\<lparr>attributes := A\<rparr>"
    using fold_read_attribute_attrs [of ps i names cd2] r by auto
  have "\<forall>a \<in> set (attributes cd'). length (attr_data a) \<le> Suc m"
    using fold_read_attribute_bounded [OF assms(2,3) a2, of i] unfolding r
    by (auto split: if_splits simp: le_SucI)
  then show ?thesis using b2 unfolding A by (auto simp: channel_sizes_def)
qed


lemma load_mesh_loop_sizes:
  assumes "load_mesh_loop cancel names ps i xs cd = Some (b, cd')"
    "distinct (map fst ps)" "distinct names"
    "\<forall>s \<in> set (channel_sizes cd). s \<le> m"
  shows "\<forall>s \<in> set (channel_sizes cd'). s \<le> m + length xs"
  using assms(1,4)
proof (induction xs arbitrary: i cd m)
  case Nil
  then show ?case by simp
next
  case (Cons x xs)
  show ?case
  proof (cases "cancel i")
    case True
    then have "cd' = cd" using Cons.prems(1) by simp
    then show ?thesis using Cons.prems(2) by auto
  next
    case False
    then obtain cd1 where s: "load_mesh_sample names ps i x cd = Some cd1"
      and r: "load_mesh_loop cancel names ps (Suc i) xs cd1 = Some (b, cd')"
      using Cons.prems(1) by (auto split: option.splits)
    have "\<forall>s \<in> set (channel_sizes cd1). s \<le> Suc m"
      using s assms(2,3) Cons.prems(2) by (rule load_mesh_sample_sizes)
    from Cons.IH [OF r this] show ?thesis by simp
  qed
qed

lemma load_mesh_loop_cancel:
  assumes "k < length xs" "cancel (i + k)" "\<forall>j < k. \<not> cancel (i + j)"
    "load_mesh_loop (\<lambda>i. False) names ps i (take k xs) cd0 = Some (b, cd)"
  shows "load_mesh_loop cancel names ps i xs cd0 = Some (True, cd)"
  using assms
proof (induction xs arbitrary: k i cd0)
  case Nil
  then show ?case by simp
next
  case (Cons x xs)
  show ?case
  proof (cases k)
    case 0
    then show ?thesis using Cons.prems by simp
  next
    case (Suc k')
    have nc: "\<not> cancel i" using Cons.prems(3) Suc by (metis add.right_neutral zero_less_Suc)
    obtain cd1 where s: "load_mesh_sample names ps i x cd0 = Some cd1"
      and r: "load_mesh_loop (\<lambda>i. False) names ps (Suc i) (take k' xs) cd1 = Some (b, cd)"
      using Cons.prems(4) Suc by (auto split: option.splits)
    have "load_mesh_loop cancel names ps (Suc i) xs cd1 = Some (True, cd)"
    proof (rule Cons.IH [OF _ _ _ r])
      show "k' < length xs" using Cons.prems(1) Suc by simp
      show "cancel (Suc i + k')" using Cons.prems(2) Suc by simp
      show "\<forall>j < k'. \<not> cancel (Suc i + j)" using Cons.prems(3) Suc by auto
    qed
    then show ?thesis using nc s by simp
  qed
qed

lemma channel_sizes_clear: "\<forall>s \<in> set (channel_sizes cached_data_clear). s \<le> 0"
  by (simp add: channel_sizes_def cached_data_clear_def)

text \<open>
  C9: let poll \<open>k\<close> be the first poll of the cancellation flag that finds it set, with
  \<open>k\<close> below the number of samples, so that the flag is found set inside the sample
  loop. Then either routine returns with exactly the cache that the first \<open>k\<close> samples
  leave when they are loaded without cancellation: the samples from index \<open>k\<close> on, the
  last one among them, are never read, nothing written is taken back, and the object's
  flag \<^verbatim>\<open>data_loaded\<close> is not touched. No channel of that cache has more than \<open>k\<close>
  entries, and at no earlier moment did a channel have more entries than samples were
  loaded: the cache that the first \<open>j\<close> samples leave has at most \<open>j\<close> entries in each
  channel. For the mesh routine the requested attribute names and the names of the
  archive's properties are each pairwise distinct.
\<close>

theorem C9_cancellation:
  assumes c: "cancel k" and nc: "\<forall>i < k. \<not> cancel i"
  shows "(k < length cschema \<and>
          load_curves_loop (\<lambda>i. False) 0 (take k cschema) cached_data_clear = Some (False, ccd) \<longrightarrow>
            load_all_data_curves ops cancel cschema obj = Some (obj\<lparr>cached_data := ccd\<rparr>) \<and>
            (\<forall>s \<in> set (channel_sizes ccd). s \<le> k) \<and>
            (\<forall>j cd. load_curves_loop (\<lambda>i. False) 0 (take j cschema) cached_data_clear = Some (False, cd)
               \<longrightarrow> (\<forall>s \<in> set (channel_sizes cd). s \<le> j))) \<and>
         (k < length (pm_samples mschema) \<and> distinct names \<and>
          distinct (map fst (pm_arb_geom_params mschema)) \<and>
          load_mesh_loop (\<lambda>i. False) names (pm_arb_geom_params mschema) 0
            (take k (pm_samples mschema)) cached_data_clear = Some (False, mcd) \<longrightarrow>
            load_all_data_mesh ops cancel names mschema obj = Some (obj\<lparr>cached_data := mcd\<rparr>) \<and>
            (\<forall>s \<in> set (channel_sizes mcd). s \<le> k) \<and>
            (\<forall>j cd. load_mesh_loop (\<lambda>i. False) names (pm_arb_geom_params mschema) 0
                      (take j (pm_samples mschema)) cached_data_clear = Some (False, cd)
               \<longrightarrow> (\<forall>s \<in> set (channel_sizes cd). s \<le> j)))"
proof (intro conjI impI allI)
  assume h: "k < length cschema \<and>
          load_curves_loop (\<lambda>i. False) 0 (take k cschema) cached_data_clear = Some (False, ccd)"
  have "load_curves_loop cancel 0 cschema cached_data_clear = Some (True, ccd)"
    using h c nc by (intro load_curves_loop_cancel [where k = k and b = False and i' = 0]) auto
  then show "load_all_data_curves ops cancel cschema obj = Some (obj\<lparr>cached_data := ccd\<rparr>)"
    by (simp add: load_all_data_curves_def)
  have "\<forall>s \<in> set (channel_sizes ccd). s \<le> 0 + length (take k cschema)"
    using h channel_sizes_clear by (intro load_curves_loop_sizes) auto
  then show "\<forall>s \<in> set (channel_sizes ccd). s \<le> k" using h by simp
next
  fix j cd
  assume "load_curves_loop (\<lambda>i. False) 0 (take j cschema) cached_data_clear = Some (False, cd)"
  then have "\<forall>s \<in> set (channel_sizes cd). s \<le> 0 + length (take j cschema)"
    using channel_sizes_clear by (rule load_curves_loop_sizes)
  then show "\<forall>s \<in> set (channel_sizes cd). s \<le> j" by auto
next
  assume h: "k < length (pm_samples mschema) \<and> distinct names \<and>
          distinct (map fst (pm_arb_geom_params mschema)) \<and>
          load_mesh_loop (\<lambda>i. False) names (pm_arb_geom_params mschema) 0
            (take k (pm_samples mschema)) cached_data_clear = Some (False, mcd)"
  have "load_mesh_loop cancel names (pm_arb_geom_params mschema) 0 (pm_samples mschema)
          cached_data_clear = Some (True, mcd)"
    using h c nc by (intro load_mesh_loop_cancel [where k = k and b = False]) auto
  then show "load_all_data_mesh ops cancel names mschema obj = Some (obj\<lparr>cached_data := mcd\<rparr>)"
    by (simp add: load_all_data_mesh_def)
  have "\<forall>s \<in> set (channel_sizes mcd). s \<le> 0 + length (take k (pm_samples mschema))"
    using h channel_sizes_clear by (intro load_mesh_loop_sizes) auto
  then show "\<forall>s \<in> set (channel_sizes mcd). s \<le> k" using h by simp
next
  fix j cd
  assume h: "k < length (pm_samples mschema) \<and> distinct names \<and>
          distinct (map fst (pm_arb_geom_params mschema)) \<and>
          load_mesh_loop (\<lambda>i. False) names (pm_arb_geom_params mschema) 0
            (take k (pm_samples mschema)) cached_data_clear = Some (False, mcd)"
    and l: "load_mesh_loop (\<lambda>i. False) names (pm_arb_geom_params mschema) 0
                      (take j (pm_samples mschema)) cached_data_clear = Some (False, cd)"
  have "\<forall>s \<in> set (channel_sizes cd). s \<le> 0 + length (take j (pm_samples mschema))"
    using l h channel_sizes_clear by (intro load_mesh_loop_sizes) auto
  then show "\<forall>s \<in> set (channel_sizes cd). s \<le> j" by auto
qed

lemma curves_sample0:
  "load_curves_sample \<lparr>cs_time = 0, cs_num_vertices = [2], cs_positions = [Vec3 0 0 0, Vec3 1 2 3]\<rparr> cached_data_clear
     = Some curves_after_first"
  by (simp add: curves_after_first_def load_curves_sample_def
        array_get_def int_ok_def add_data_def cached_data_clear_def upt_rec)


lemma take_two_curve_samples: "take 1 two_curve_samples = [\<lparr>cs_time = 0, cs_num_vertices = [2], cs_positions = [Vec3 0 0 0, Vec3 1 2 3]\<rparr>]"
  by (simp add: two_curve_samples_def)

lemma curves_prefix:
  "load_curves_loop (\<lambda>i. False) 0 (take 1 two_curve_samples) cached_data_clear = Some (False, curves_after_first)"
  unfolding take_two_curve_samples by (simp add: curves_sample0)


lemma mesh_tris0: "add_triangles_faces [3] [0, 1, 2] 0 ([], []) = Some ([(0, 1, 2)], [(0, 1, 2)])"
  by (simp add: array_get_def int_ok_def upt_rec)

lemma mesh_count0: "count_triangles [3] 0 = Some 1"
  by (simp add: int_ok_def)

lemma mesh_sample0:
  "load_mesh_sample [''uv''] [(''uv'', \<lambda>i cd. Some ([10, 20, 30], of_nat i))] 0
     \<lparr>ms_time = 0, ms_positions = Some [Vec3 0 0 0, Vec3 1 0 0, Vec3 0 1 0],
      ms_face_counts = Some [3], ms_face_indices = Some [0, 1, 2]\<rparr> cached_data_clear
   = Some mesh_after_first"
  by (simp add: mesh_after_first_def load_mesh_sample_def add_positions_def
        add_triangles_def mesh_tris0 mesh_count0 reserve_ok_def read_attribute_def read_prop_def
        add_attribute_def add_data_def cached_data_clear_def
        del: add_triangles_faces.simps count_triangles.simps)

lemma mesh_prefix:
  "load_mesh_loop (\<lambda>i. False) [''uv''] (pm_arb_geom_params two_mesh_samples) 0
     (take 1 (pm_samples two_mesh_samples)) cached_data_clear = Some (False, mesh_after_first)"
  by (simp add: two_mesh_samples_def mesh_sample0)


theorem C9_cancellation_witness:
  "\<forall>ops obj.
     load_all_data_curves ops (\<lambda>i. 1 \<le> i) two_curve_samples obj =
       Some (obj\<lparr>cached_data := curves_after_first\<rparr>) \<and>
     load_all_data_mesh ops (\<lambda>i. 1 \<le> i) [''uv''] two_mesh_samples obj =
       Some (obj\<lparr>cached_data := mesh_after_first\<rparr>) \<and>
     list_all (\<lambda>s. s \<le> 1) (channel_sizes curves_after_first) \<and>
     list_all (\<lambda>s. s \<le> 1) (channel_sizes mesh_after_first)"
proof (intro allI)
  fix ops :: "'a numerics" and obj :: AlembicObject
  have hc: "1 < length two_curve_samples" by (simp add: two_curve_samples_def)
  have hm: "1 < length (pm_samples two_mesh_samples)" by (simp add: two_mesh_samples_def)
  have d1: "distinct [''uv'']" by simp
  have d2: "distinct (map fst (pm_arb_geom_params two_mesh_samples))"
    by (simp add: two_mesh_samples_def)
  have c: "(\<lambda>i::nat. 1 \<le> i) 1" and nc: "\<forall>i < 1. \<not> (\<lambda>i::nat. 1 \<le> i) i" by simp_all
  note inst = C9_cancellation [where cancel = "\<lambda>i. 1 \<le> i" and k = 1
      and cschema = two_curve_samples and ccd = curves_after_first and ops = ops and obj = obj
      and mschema = two_mesh_samples and names = "[''uv'']" and mcd = mesh_after_first, OF c nc]
  have A: "load_all_data_curves ops (\<lambda>i. 1 \<le> i) two_curve_samples obj =
       Some (obj\<lparr>cached_data := curves_after_first\<rparr>) \<and>
       (\<forall>s \<in> set (channel_sizes curves_after_first). s \<le> 1)"
    using inst hc curves_prefix by blast
  have B: "load_all_data_mesh ops (\<lambda>i. 1 \<le> i) [''uv''] two_mesh_samples obj =
       Some (obj\<lparr>cached_data := mesh_after_first\<rparr>) \<and>
       (\<forall>s \<in> set (channel_sizes mesh_after_first). s \<le> 1)"
    using inst hm d1 d2 mesh_prefix by blast
  show "load_all_data_curves ops (\<lambda>i. 1 \<le> i) two_curve_samples obj =
       Some (obj\<lparr>cached_data := curves_after_first\<rparr>) \<and>
     load_all_data_mesh ops (\<lambda>i. 1 \<le> i) [''uv''] two_mesh_samples obj =
       Some (obj\<lparr>cached_data := mesh_after_first\<rparr>) \<and>
     list_all (\<lambda>s. s \<le> 1) (channel_sizes curves_after_first) \<and>
     list_all (\<lambda>s. s \<le> 1) (channel_sizes mesh_after_first)"
    using A B unfolding list_all_iff by blast
qed

end
